theory Spec2Isabelle
  imports Main "HOL-Library.AList"
begin

section \<open>Data model (bgp\_simulator.h)\<close>

text \<open>
  AS numbers are C++ \<^verbatim>\<open>int\<close>s that are only stored and compared, never computed with,
  so they are modelled as \<^typ>\<open>int\<close>. Prefixes are opaque strings.
\<close>

datatype RelationType = PROVIDER_TO_CUSTOMER | PEER_TO_PEER | CUSTOMER_TO_PROVIDER

datatype AnnouncementType = LEARNED_FROM_CUSTOMER | LEARNED_FROM_PEER | LEARNED_FROM_PROVIDER

record Route =
  prefix :: string
  as_path :: "int list"
  announcement_type :: AnnouncementType
  rov_invalid :: bool

text \<open>\<^verbatim>\<open>Route::prepend\<close>: insert at the front of the path.\<close>

definition prepend :: "int \<Rightarrow> Route \<Rightarrow> Route" where
  "prepend asn r = r\<lparr>as_path := asn # as_path r\<rparr>"

text \<open>\<^verbatim>\<open>Route::get_origin_asn\<close>: the last element, or -1 for an empty path.\<close>

definition get_origin_asn :: "Route \<Rightarrow> int" where
  "get_origin_asn r = (if as_path r = [] then - 1 else last (as_path r))"

section \<open>Export policy and decision process\<close>

definition relationship_to_announcement_type :: "RelationType \<Rightarrow> AnnouncementType" where
  "relationship_to_announcement_type rel_type =
     (case rel_type of
        CUSTOMER_TO_PROVIDER \<Rightarrow> LEARNED_FROM_CUSTOMER
      | PEER_TO_PEER \<Rightarrow> LEARNED_FROM_PEER
      | PROVIDER_TO_CUSTOMER \<Rightarrow> LEARNED_FROM_PROVIDER)"

definition can_export :: "Route \<Rightarrow> RelationType \<Rightarrow> bool" where
  "can_export route export_relationship =
     (case announcement_type route of
        LEARNED_FROM_CUSTOMER \<Rightarrow> True
      | LEARNED_FROM_PROVIDER \<Rightarrow> export_relationship = PROVIDER_TO_CUSTOMER
      | LEARNED_FROM_PEER \<Rightarrow> export_relationship = PROVIDER_TO_CUSTOMER)"

text \<open>The two inline ternaries of \<^verbatim>\<open>better_route\<close> that compute the preference.\<close>

definition pref_of :: "AnnouncementType \<Rightarrow> int" where
  "pref_of t = (if t = LEARNED_FROM_CUSTOMER then 2 else if t = LEARNED_FROM_PEER then 1 else 0)"

text \<open>
  The next-hop read of \<^verbatim>\<open>better_route\<close>: \<^verbatim>\<open>as_path[1]\<close> when the size is at least 2,
  else \<^verbatim>\<open>as_path[0]\<close>. On an empty vector the read is out of range (undefined behaviour
  in C++); the model returns \<open>None\<close> there.
\<close>

definition next_hop :: "int list \<Rightarrow> int option" where
  "next_hop p = (if length p \<ge> 2 then Some (p ! 1) else if p = [] then None else Some (p ! 0))"

text \<open>
  \<^verbatim>\<open>BGPSimulator::better_route\<close>. The first argument is the field
  \<^verbatim>\<open>rov_enabled_asns\<close>. The result is \<open>None\<close> exactly when the code reaches the
  out-of-range read.
\<close>

definition better_route :: "int set \<Rightarrow> Route \<Rightarrow> Route \<Rightarrow> int \<Rightarrow> bool option" where
  "better_route rov new_route existing_route deciding_asn =
     (if deciding_asn \<in> rov \<and> rov_invalid new_route \<noteq> rov_invalid existing_route
      then Some (\<not> rov_invalid new_route)
      else let new_pref = pref_of (announcement_type new_route);
               existing_pref = pref_of (announcement_type existing_route)
           in if new_pref \<noteq> existing_pref then Some (new_pref > existing_pref)
              else if length (as_path new_route) \<noteq> length (as_path existing_route)
              then Some (length (as_path new_route) < length (as_path existing_route))
              else (case next_hop (as_path new_route) of
                      None \<Rightarrow> None
                    | Some new_next_hop \<Rightarrow>
                        (case next_hop (as_path existing_route) of
                           None \<Rightarrow> None
                         | Some existing_next_hop \<Rightarrow> Some (new_next_hop < existing_next_hop))))"

subsection \<open>The decision criteria in the specification's words\<close>

text \<open>Local preference by learning source, as the specification tabulates it.\<close>

fun spec_local_pref :: "AnnouncementType \<Rightarrow> nat" where
  "spec_local_pref LEARNED_FROM_CUSTOMER = 2"
| "spec_local_pref LEARNED_FROM_PEER = 1"
| "spec_local_pref LEARNED_FROM_PROVIDER = 0"

text \<open>The next-hop ASN of the specification: the second element, or the sole element.\<close>

fun spec_next_hop :: "int list \<Rightarrow> int" where
  "spec_next_hop (a # b # rest) = b"
| "spec_next_hop p = hd p"

text \<open>
  \<open>C\<close> is strictly better than \<open>E\<close> at \<open>D\<close>: the first criterion, in order, on which the
  two differ is in favour of \<open>C\<close>.
\<close>

definition spec_strictly_better :: "int set \<Rightarrow> Route \<Rightarrow> Route \<Rightarrow> int \<Rightarrow> bool" where
  "spec_strictly_better rov C E D \<longleftrightarrow>
     (D \<in> rov \<and> \<not> rov_invalid C \<and> rov_invalid E) \<or>
     ((D \<notin> rov \<or> rov_invalid C = rov_invalid E) \<and>
      (spec_local_pref (announcement_type C) > spec_local_pref (announcement_type E) \<or>
       (spec_local_pref (announcement_type C) = spec_local_pref (announcement_type E) \<and>
        (length (as_path C) < length (as_path E) \<or>
         (length (as_path C) = length (as_path E) \<and>
          spec_next_hop (as_path C) < spec_next_hop (as_path E))))))"

section \<open>AS graph\<close>

text \<open>
  The unordered maps and sets of the program are association lists and lists: they are
  finite, a key is looked up with \<^const>\<open>map_of\<close>, and \<^verbatim>\<open>m[k] = v\<close> is
  \<^const>\<open>AList.update\<close>, which overwrites the entry of an existing key in place and
  appends a new key. Where the program iterates over an unordered container, whose order
  C++ leaves unspecified, the model iterates in list order.
\<close>

record ASGraph =
  adjacency :: "(int \<times> (int \<times> RelationType) list) list"
  all_asns :: "int list"

definition empty_graph :: ASGraph where
  "empty_graph = \<lparr>adjacency = [], all_asns = []\<rparr>"

text \<open>\<^verbatim>\<open>ASGraph::get_neighbors\<close>: the adjacency vector, empty for an unknown AS.\<close>

definition get_neighbors :: "ASGraph \<Rightarrow> int \<Rightarrow> (int \<times> RelationType) list" where
  "get_neighbors g asn = (case map_of (adjacency g) asn of Some nbrs \<Rightarrow> nbrs | None \<Rightarrow> [])"

text \<open>\<^verbatim>\<open>all_asns.insert(asn)\<close> on the unordered set.\<close>

definition insert_asn :: "int \<Rightarrow> int list \<Rightarrow> int list" where
  "insert_asn asn asns = (if asn \<in> set asns then asns else asns @ [asn])"

text \<open>\<^verbatim>\<open>adjacency[asn].push_back(entry)\<close>.\<close>

definition adj_push ::
  "int \<Rightarrow> int \<times> RelationType \<Rightarrow> (int \<times> (int \<times> RelationType) list) list
     \<Rightarrow> (int \<times> (int \<times> RelationType) list) list" where
  "adj_push asn entry adj =
     AList.update asn ((case map_of adj asn of Some nbrs \<Rightarrow> nbrs | None \<Rightarrow> []) @ [entry]) adj"

definition reverse_rel :: "RelationType \<Rightarrow> RelationType" where
  "reverse_rel rel_type =
     (case rel_type of
        PROVIDER_TO_CUSTOMER \<Rightarrow> CUSTOMER_TO_PROVIDER
      | CUSTOMER_TO_PROVIDER \<Rightarrow> PROVIDER_TO_CUSTOMER
      | PEER_TO_PEER \<Rightarrow> PEER_TO_PEER)"

definition add_relationship :: "int \<Rightarrow> int \<Rightarrow> RelationType \<Rightarrow> ASGraph \<Rightarrow> ASGraph" where
  "add_relationship asn1 asn2 rel_type g =
     \<lparr>adjacency = adj_push asn2 (asn1, reverse_rel rel_type)
                    (adj_push asn1 (asn2, rel_type) (adjacency g)),
      all_asns = insert_asn asn2 (insert_asn asn1 (all_asns g))\<rparr>"

section \<open>Simulator state\<close>

type_synonym rib = "(string \<times> Route) list"
type_synonym queue = "(string \<times> Route list) list"

record BGPSimulator =
  graph :: ASGraph
  rov_enabled_asns :: "int set"
  ribs :: "(int \<times> rib) list"
  message_queues :: "(int \<times> queue) list"
  asn_to_rank :: "int \<rightharpoonup> nat"
  rank_to_asns :: "int list list"

text \<open>The constructor: everything but the graph starts empty.\<close>

definition new_simulator :: "ASGraph \<Rightarrow> BGPSimulator" where
  "new_simulator g =
     \<lparr>graph = g, rov_enabled_asns = {}, ribs = [], message_queues = [],
      asn_to_rank = Map.empty, rank_to_asns = []\<rparr>"

definition set_rov_asns :: "int set \<Rightarrow> BGPSimulator \<Rightarrow> BGPSimulator" where
  "set_rov_asns rov_asns s = s\<lparr>rov_enabled_asns := rov_asns\<rparr>"

text \<open>\<^verbatim>\<open>m[k]\<close> read on a map of containers: the stored container, or an empty one.\<close>

definition entry_of :: "('k \<times> 'v list) list \<Rightarrow> 'k \<Rightarrow> 'v list" where
  "entry_of m k = (case map_of m k of Some v \<Rightarrow> v | None \<Rightarrow> [])"

text \<open>\<^verbatim>\<open>ribs[asn][prefix] = route\<close>.\<close>

definition rib_store :: "int \<Rightarrow> string \<Rightarrow> Route \<Rightarrow> (int \<times> rib) list \<Rightarrow> (int \<times> rib) list" where
  "rib_store asn pfx route rs = AList.update asn (AList.update pfx route (entry_of rs asn)) rs"

text \<open>\<^verbatim>\<open>message_queues[asn][prefix].push_back(route)\<close>.\<close>

definition queue_push ::
  "int \<Rightarrow> string \<Rightarrow> Route \<Rightarrow> (int \<times> queue) list \<Rightarrow> (int \<times> queue) list" where
  "queue_push asn pfx route mq =
     AList.update asn
       (AList.update pfx (entry_of (entry_of mq asn) pfx @ [route]) (entry_of mq asn)) mq"

text \<open>The RIB entry of an AS for a prefix, if any.\<close>

definition rib_lookup :: "BGPSimulator \<Rightarrow> int \<Rightarrow> string \<Rightarrow> Route option" where
  "rib_lookup s asn pfx =
     (case map_of (ribs s) asn of None \<Rightarrow> None | Some rib \<Rightarrow> map_of rib pfx)"

definition seed_announcement :: "int \<Rightarrow> string \<Rightarrow> bool \<Rightarrow> BGPSimulator \<Rightarrow> BGPSimulator" where
  "seed_announcement origin_asn pfx rov_inv s =
     (let route = \<lparr>prefix = pfx, as_path = [origin_asn],
                   announcement_type = LEARNED_FROM_CUSTOMER, rov_invalid = rov_inv\<rparr>
      in s\<lparr>graph := (graph s)\<lparr>all_asns := insert_asn origin_asn (all_asns (graph s))\<rparr>,
           ribs := rib_store origin_asn pfx route (ribs s)\<rparr>)"

text \<open>The route that \<^verbatim>\<open>send_route_to_neighbor\<close> enqueues: a copy with the receiver
  prepended and the announcement type of the receiver's view.\<close>

definition sent_route :: "int \<Rightarrow> Route \<Rightarrow> RelationType \<Rightarrow> Route" where
  "sent_route receiver_asn route relationship =
     (prepend receiver_asn route)
       \<lparr>announcement_type := relationship_to_announcement_type relationship\<rparr>"

definition send_route_to_neighbor ::
  "int \<Rightarrow> int \<Rightarrow> Route \<Rightarrow> RelationType \<Rightarrow> BGPSimulator \<Rightarrow> BGPSimulator" where
  "send_route_to_neighbor sender_asn receiver_asn route relationship s =
     (if receiver_asn \<in> set (as_path route) then s
      else if \<not> can_export route relationship then s
      else s\<lparr>message_queues :=
               queue_push receiver_asn (prefix route)
                 (sent_route receiver_asn route relationship) (message_queues s)\<rparr>)"

text \<open>
  A loop whose body may reach undefined behaviour: the state is threaded through, and
  \<open>None\<close> is propagated.
\<close>

fun fold_option :: "('a \<Rightarrow> 's \<Rightarrow> 's option) \<Rightarrow> 'a list \<Rightarrow> 's \<Rightarrow> 's option" where
  "fold_option f [] s = Some s"
| "fold_option f (x # xs) s = (case f x s of None \<Rightarrow> None | Some s' \<Rightarrow> fold_option f xs s')"

text \<open>
  The body of the inner loop of \<^verbatim>\<open>process_messages\<close> for one queued route. It is
  \<open>None\<close> when \<open>better_route\<close> reads out of range.
\<close>

definition process_route :: "int \<Rightarrow> string \<Rightarrow> Route \<Rightarrow> BGPSimulator \<Rightarrow> BGPSimulator option" where
  "process_route asn pfx route s =
     (if asn \<in> rov_enabled_asns s \<and> rov_invalid route then Some s
      else (case rib_lookup s asn pfx of
              None \<Rightarrow> Some (s\<lparr>ribs := rib_store asn pfx route (ribs s)\<rparr>)
            | Some existing_route \<Rightarrow>
                (case better_route (rov_enabled_asns s) route existing_route asn of
                   None \<Rightarrow> None
                 | Some True \<Rightarrow> Some (s\<lparr>ribs := rib_store asn pfx route (ribs s)\<rparr>)
                 | Some False \<Rightarrow> Some s)))"

definition process_messages :: "int \<Rightarrow> BGPSimulator \<Rightarrow> BGPSimulator option" where
  "process_messages asn s =
     (case map_of (message_queues s) asn of
        None \<Rightarrow> Some s
      | Some q \<Rightarrow>
          (case fold_option (\<lambda>(pfx, routes). fold_option (process_route asn pfx) routes) q s of
             None \<Rightarrow> None
           | Some s' \<Rightarrow> Some (s'\<lparr>message_queues := AList.update asn [] (message_queues s')\<rparr>)))"

section \<open>Graph flattening\<close>

text \<open>
  \<^verbatim>\<open>customer_count[k]\<close> reads 0 for a key that is not yet in the map;
  \<^verbatim>\<open>customer_count[k] = v\<close>, \<^verbatim>\<open>++\<close> and \<^verbatim>\<open>--\<close> store the new value.
\<close>

definition cc_get :: "(int \<times> int) list \<Rightarrow> int \<Rightarrow> int" where
  "cc_get cc k = (case map_of cc k of Some c \<Rightarrow> c | None \<Rightarrow> 0)"

definition cc_add :: "int \<Rightarrow> int \<Rightarrow> (int \<times> int) list \<Rightarrow> (int \<times> int) list" where
  "cc_add k d cc = AList.update k (cc_get cc k + d) cc"

text \<open>The first loop of \<^verbatim>\<open>flatten_graph\<close>: one counter per AS, counting its
  \<^verbatim>\<open>PROVIDER_TO_CUSTOMER\<close> adjacency entries.\<close>

definition count_asn :: "ASGraph \<Rightarrow> int \<Rightarrow> (int \<times> int) list \<Rightarrow> (int \<times> int) list" where
  "count_asn g asn cc =
     fold (\<lambda>neighbor cc. if snd neighbor = PROVIDER_TO_CUSTOMER then cc_add asn 1 cc else cc)
       (get_neighbors g asn) (AList.update asn 0 cc)"

definition initial_customer_count :: "ASGraph \<Rightarrow> (int \<times> int) list" where
  "initial_customer_count g = fold (count_asn g) (all_asns g) []"

text \<open>The second loop: the ASes whose counter is zero, in the iteration order of the map.\<close>

definition initial_queue :: "(int \<times> int) list \<Rightarrow> int list" where
  "initial_queue cc = map fst (filter (\<lambda>entry. snd entry = 0) cc)"

record flatten_state =
  customer_count :: "(int \<times> int) list"
  zero_customer_queue :: "int list"
  fl_asn_to_rank :: "int \<rightharpoonup> nat"
  fl_rank_to_asns :: "int list list"

text \<open>The innermost loop body: one adjacency entry of the AS just taken off the queue.\<close>

definition visit_neighbor :: "int \<times> RelationType \<Rightarrow> flatten_state \<Rightarrow> flatten_state" where
  "visit_neighbor neighbor st =
     (if snd neighbor = CUSTOMER_TO_PROVIDER
      then let cc = cc_add (fst neighbor) (- 1) (customer_count st)
           in if cc_get cc (fst neighbor) = 0
              then st\<lparr>customer_count := cc,
                      zero_customer_queue := zero_customer_queue st @ [fst neighbor]\<rparr>
              else st\<lparr>customer_count := cc\<rparr>
      else st)"

text \<open>
  One round of the \<^verbatim>\<open>for (i < level_size)\<close> loop: take the front of the queue, give it
  the current rank, visit its adjacency entries. The loop runs \<open>level_size\<close> times on a
  queue that held \<open>level_size\<close> elements and only grows at the back, so the queue is never
  empty here; the model leaves the state unchanged in that unreachable case.
\<close>

definition drain_one :: "ASGraph \<Rightarrow> nat \<Rightarrow> flatten_state \<Rightarrow> flatten_state" where
  "drain_one g current_rank st =
     (case zero_customer_queue st of
        [] \<Rightarrow> st
      | asn # rest \<Rightarrow>
          fold visit_neighbor (get_neighbors g asn)
            (st\<lparr>zero_customer_queue := rest,
                fl_asn_to_rank := (fl_asn_to_rank st)(asn \<mapsto> current_rank),
                fl_rank_to_asns := (fl_rank_to_asns st)
                  [current_rank := fl_rank_to_asns st ! current_rank @ [asn]]\<rparr>))"

fun drain :: "ASGraph \<Rightarrow> nat \<Rightarrow> nat \<Rightarrow> flatten_state \<Rightarrow> flatten_state" where
  "drain g current_rank 0 st = st"
| "drain g current_rank (Suc n) st = drain g current_rank n (drain_one g current_rank st)"

text \<open>Termination of the outer \<^verbatim>\<open>while\<close>: the number of positive counters plus the
  length of the queue goes down by one with every AS taken off the queue.\<close>

definition fl_measure :: "flatten_state \<Rightarrow> nat" where
  "fl_measure st =
     length (filter (\<lambda>entry. snd entry > 0) (customer_count st)) + length (zero_customer_queue st)"

lemma filter_pos_ge:
  "map_of al k = Some c \<Longrightarrow> (0::int) < c \<Longrightarrow> 1 \<le> length (filter (\<lambda>entry. snd entry > 0) al)"
  by (induction al) (auto split: if_splits)

lemma filter_update_pos:
  "length (filter (\<lambda>entry. snd entry > (0::int)) (AList.update k v al)) =
     length (filter (\<lambda>entry. snd entry > 0) al)
       - (case map_of al k of Some c \<Rightarrow> if c > 0 then 1 else 0 | None \<Rightarrow> 0)
       + (if v > 0 then 1 else 0)"
proof (induction al)
  case Nil
  show ?case by simp
next
  case (Cons e al)
  show ?case
  proof (cases "fst e = k")
    case True
    then show ?thesis by (cases e) auto
  next
    case False
    show ?thesis
    proof (cases "map_of al k")
      case None
      with False Cons show ?thesis by (cases e) auto
    next
      case (Some c)
      with False Cons filter_pos_ge [OF Some] show ?thesis by (cases e) auto
    qed
  qed
qed

lemma fl_measure_visit: "fl_measure (visit_neighbor nb st) = fl_measure st"
proof (cases "snd nb = CUSTOMER_TO_PROVIDER")
  case False
  then show ?thesis by (simp add: visit_neighbor_def)
next
  case True
  show ?thesis
  proof (cases "map_of (customer_count st) (fst nb)")
    case None
    with True show ?thesis
      by (simp add: visit_neighbor_def fl_measure_def cc_add_def cc_get_def Let_def
          filter_update_pos update_conv')
  next
    case (Some c)
    with True filter_pos_ge [OF Some] show ?thesis
      by (auto simp: visit_neighbor_def fl_measure_def cc_add_def cc_get_def Let_def
          filter_update_pos update_conv')
  qed
qed

lemma fl_measure_fold_visit: "fl_measure (fold visit_neighbor nbs st) = fl_measure st"
  by (induction nbs arbitrary: st) (simp_all add: fl_measure_visit)

lemma fl_measure_drain_one:
  "zero_customer_queue st \<noteq> [] \<Longrightarrow> Suc (fl_measure (drain_one g r st)) = fl_measure st"
  by (cases "zero_customer_queue st")
     (simp_all add: drain_one_def fl_measure_fold_visit, simp add: fl_measure_def)

lemma queue_fold_visit:
  "length (zero_customer_queue st) \<le> length (zero_customer_queue (fold visit_neighbor nbs st))"
proof (induction nbs arbitrary: st)
  case Nil
  show ?case by simp
next
  case (Cons nb nbs)
  have "length (zero_customer_queue st) \<le> length (zero_customer_queue (visit_neighbor nb st))"
    by (simp add: visit_neighbor_def Let_def)
  with Cons [of "visit_neighbor nb st"] show ?case by simp
qed

lemma queue_drain_one:
  "length (zero_customer_queue st) \<le> Suc (length (zero_customer_queue (drain_one g r st)))"
proof (cases "zero_customer_queue st")
  case Nil
  then show ?thesis by simp
next
  case (Cons asn rest)
  let ?st' = "st\<lparr>zero_customer_queue := rest,
                fl_asn_to_rank := (fl_asn_to_rank st)(asn \<mapsto> r),
                fl_rank_to_asns := (fl_rank_to_asns st)[r := fl_rank_to_asns st ! r @ [asn]]\<rparr>"
  from queue_fold_visit [of ?st' "get_neighbors g asn"] Cons show ?thesis
    by (simp add: drain_one_def)
qed

lemma fl_measure_drain:
  "n \<le> length (zero_customer_queue st) \<Longrightarrow> fl_measure (drain g r n st) + n = fl_measure st"
proof (induction n arbitrary: st)
  case 0
  show ?case by simp
next
  case (Suc n)
  from Suc.prems have ne: "zero_customer_queue st \<noteq> []" by auto
  from Suc.prems queue_drain_one [of st g r]
  have "n \<le> length (zero_customer_queue (drain_one g r st))" by simp
  from Suc.IH [OF this] fl_measure_drain_one [OF ne, of g r] show ?case by simp
qed

text \<open>The \<^verbatim>\<open>while (!zero_customer_queue.empty())\<close> loop, one wave per round.\<close>

function flatten_loop :: "ASGraph \<Rightarrow> nat \<Rightarrow> flatten_state \<Rightarrow> flatten_state" where
  "flatten_loop g current_rank st =
     (if zero_customer_queue st = [] then st
      else flatten_loop g (current_rank + 1)
             (drain g current_rank (length (zero_customer_queue st))
                (st\<lparr>fl_rank_to_asns := fl_rank_to_asns st @ [[]]\<rparr>)))"
  by pat_completeness auto
termination
proof (relation "measure (\<lambda>(g, r, st). fl_measure st)")
  show "wf (measure (\<lambda>(g, r, st). fl_measure st))" by simp
next
  fix g :: ASGraph and current_rank :: nat and st :: flatten_state
  assume ne: "zero_customer_queue st \<noteq> []"
  let ?st = "st\<lparr>fl_rank_to_asns := fl_rank_to_asns st @ [[]]\<rparr>"
  have "fl_measure (drain g current_rank (length (zero_customer_queue ?st)) ?st)
          + length (zero_customer_queue ?st) = fl_measure ?st"
    by (rule fl_measure_drain) simp
  moreover have "fl_measure ?st = fl_measure st" by (simp add: fl_measure_def)
  ultimately have "fl_measure (drain g current_rank (length (zero_customer_queue st)) ?st)
      < fl_measure st"
    using ne by (cases "zero_customer_queue st") auto
  then show "((g, current_rank + 1,
       drain g current_rank (length (zero_customer_queue st)) ?st), (g, current_rank, st))
      \<in> measure (\<lambda>(g, r, st). fl_measure st)"
    by simp
qed

definition flatten_ranks :: "ASGraph \<Rightarrow> flatten_state" where
  "flatten_ranks g =
     (let cc = initial_customer_count g
      in flatten_loop g 0
           \<lparr>customer_count = cc, zero_customer_queue = initial_queue cc,
            fl_asn_to_rank = Map.empty, fl_rank_to_asns = []\<rparr>)"

text \<open>
  \<^verbatim>\<open>BGPSimulator::flatten_graph\<close>. After the loop the code prints
  \<^verbatim>\<open>rank_to_asns[0].size()\<close>; when no rank was created that read is out of range
  (undefined behaviour), and the model returns \<open>None\<close>.
\<close>

definition flatten_graph :: "BGPSimulator \<Rightarrow> BGPSimulator option" where
  "flatten_graph s =
     (let st = flatten_ranks (graph s)
      in if fl_rank_to_asns st = [] then None
         else Some (s\<lparr>asn_to_rank := fl_asn_to_rank st, rank_to_asns := fl_rank_to_asns st\<rparr>))"

section \<open>Propagation\<close>

text \<open>
  The sending loops of the three phases have the same shape: for one AS, every route of
  its RIB is offered along every adjacency entry of the phase's relation.
\<close>

definition send_all :: "RelationType \<Rightarrow> int \<Rightarrow> BGPSimulator \<Rightarrow> BGPSimulator" where
  "send_all phase_rel asn s =
     (case map_of (ribs s) asn of
        None \<Rightarrow> s
      | Some rib \<Rightarrow>
          fold (\<lambda>(pfx, route).
                  fold (\<lambda>(nbr_asn, rel) s.
                          if rel = phase_rel then send_route_to_neighbor asn nbr_asn route rel s
                          else s)
                       (get_neighbors (graph s) asn))
               rib s)"

definition send_rank :: "RelationType \<Rightarrow> int list \<Rightarrow> BGPSimulator \<Rightarrow> BGPSimulator" where
  "send_rank phase_rel asns s = fold (send_all phase_rel) asns s"

definition process_rank :: "int list \<Rightarrow> BGPSimulator \<Rightarrow> BGPSimulator option" where
  "process_rank asns s = fold_option process_messages asns s"

text \<open>Phase 1, one rank: send to providers, then process the next rank.\<close>

definition phase1_rank :: "nat \<Rightarrow> BGPSimulator \<Rightarrow> BGPSimulator option" where
  "phase1_rank rank s =
     (let s1 = send_rank CUSTOMER_TO_PROVIDER (rank_to_asns s ! rank) s
      in if rank + 1 < length (rank_to_asns s)
         then process_rank (rank_to_asns s ! (rank + 1)) s1
         else Some s1)"

text \<open>Phase 2, one rank: send to peers, then process the same rank.\<close>

definition phase2_rank :: "nat \<Rightarrow> BGPSimulator \<Rightarrow> BGPSimulator option" where
  "phase2_rank rank s =
     process_rank (rank_to_asns s ! rank) (send_rank PEER_TO_PEER (rank_to_asns s ! rank) s)"

text \<open>Phase 3, one rank: send to customers, then process the previous rank.\<close>

definition phase3_rank :: "nat \<Rightarrow> BGPSimulator \<Rightarrow> BGPSimulator option" where
  "phase3_rank rank s =
     (let s1 = send_rank PROVIDER_TO_CUSTOMER (rank_to_asns s ! rank) s
      in if rank > 0 then process_rank (rank_to_asns s ! (rank - 1)) s1 else Some s1)"

text \<open>One round of the \<^verbatim>\<open>while (true)\<close> loop of \<^verbatim>\<open>propagate\<close>, up to the count.\<close>

definition propagate_iteration :: "BGPSimulator \<Rightarrow> BGPSimulator option" where
  "propagate_iteration s =
     (let ranks = [0 ..< length (rank_to_asns s)]
      in case fold_option phase1_rank ranks s of
           None \<Rightarrow> None
         | Some s1 \<Rightarrow>
             (case fold_option phase2_rank ranks s1 of
                None \<Rightarrow> None
              | Some s2 \<Rightarrow> fold_option phase3_rank (rev ranks) s2))"

text \<open>\<^verbatim>\<open>get_rib_count\<close>, which is also the \<^verbatim>\<open>total_routes\<close> sum of
  \<^verbatim>\<open>propagate\<close>. The C++ sum is an \<^verbatim>\<open>int\<close>; the model counts in \<^typ>\<open>nat\<close>.\<close>

definition get_rib_count :: "BGPSimulator \<Rightarrow> nat" where
  "get_rib_count s = sum_list (map (\<lambda>asn_entry. length (snd asn_entry)) (ribs s))"

text \<open>
  The loop of \<^verbatim>\<open>propagate\<close>, with its two local variables as arguments. It returns the
  boolean result together with the final state.
\<close>

function propagate_loop :: "nat \<Rightarrow> nat \<Rightarrow> BGPSimulator \<Rightarrow> (bool \<times> BGPSimulator) option" where
  "propagate_loop iteration prev_total_routes s =
     (case propagate_iteration s of
        None \<Rightarrow> None
      | Some s' \<Rightarrow>
          if get_rib_count s' = prev_total_routes then Some (True, s')
          else if iteration + 1 \<ge> 20 then Some (False, s')
          else propagate_loop (iteration + 1) (get_rib_count s') s')"
  by pat_completeness auto
termination
  by (relation "measure (\<lambda>(iteration, prev, s). 20 - iteration)") auto

definition propagate :: "BGPSimulator \<Rightarrow> (bool \<times> BGPSimulator) option" where
  "propagate s =
     (case flatten_graph s of None \<Rightarrow> None | Some s0 \<Rightarrow> propagate_loop 0 0 s0)"

section \<open>Customer-provider cycle check\<close>

datatype Color = WHITE | GRAY | BLACK

text \<open>
  The recursive lambda \<^verbatim>\<open>dfs\<close> of \<^verbatim>\<open>has_customer_provider_cycle\<close> and the loop over
  the adjacency entries inside it are one recursive function on a task: \<open>Visit u\<close> is the
  call \<^verbatim>\<open>dfs(u)\<close>, \<open>Scan nbrs\<close> is the rest of the \<^verbatim>\<open>for\<close> loop. The colour map is
  threaded through; \<^verbatim>\<open>color[v]\<close> reads \<^verbatim>\<open>WHITE\<close> for a key that is not in the map.
  \<open>None\<close> stands for a recursion that does not return; lemma
  \<open>has_customer_provider_cycle_total\<close> shows that there is none.
\<close>

datatype dfs_task = Visit int | Scan "(int \<times> RelationType) list"

partial_function (option) dfs ::
  "ASGraph \<Rightarrow> dfs_task \<Rightarrow> (int \<Rightarrow> Color) \<Rightarrow> (bool \<times> (int \<Rightarrow> Color)) option" where
  "dfs g task color =
     (case task of
        Visit u \<Rightarrow>
          Option.bind (dfs g (Scan (get_neighbors g u)) (color(u := GRAY)))
            (\<lambda>(found, color').
               if found then Some (True, color') else Some (False, color'(u := BLACK)))
      | Scan [] \<Rightarrow> Some (False, color)
      | Scan ((v, rel) # rest) \<Rightarrow>
          if rel \<noteq> CUSTOMER_TO_PROVIDER then dfs g (Scan rest) color
          else if color v = GRAY then Some (True, color)
          else if color v = WHITE
          then Option.bind (dfs g (Visit v) color)
                 (\<lambda>(found, color').
                    if found then Some (True, color') else dfs g (Scan rest) color')
          else dfs g (Scan rest) color)"

declare dfs.simps [code]

text \<open>The loop that starts a traversal from every node that is still white.\<close>

fun cycle_loop :: "ASGraph \<Rightarrow> int list \<Rightarrow> (int \<Rightarrow> Color) \<Rightarrow> bool option" where
  "cycle_loop g [] color = Some False"
| "cycle_loop g (asn # rest) color =
     (if color asn = WHITE
      then (case dfs g (Visit asn) color of
              None \<Rightarrow> None
            | Some (found, color') \<Rightarrow> if found then Some True else cycle_loop g rest color')
      else cycle_loop g rest color)"

definition has_customer_provider_cycle :: "ASGraph \<Rightarrow> bool option" where
  "has_customer_provider_cycle g = cycle_loop g (all_asns g) (\<lambda>asn. WHITE)"

text \<open>
  The recursion always returns: every call \<open>Visit u\<close> is on a white node of the graph and
  paints it at once, so the number of white nodes bounds the depth. The two predicates
  below state this for a bound \<open>n\<close> on the number of white nodes.
\<close>

definition graph_nodes :: "ASGraph \<Rightarrow> int set" where
  "graph_nodes g = set (all_asns g) \<union> (\<Union>e \<in> set (adjacency g). fst ` set (snd e))"

definition white_nodes :: "ASGraph \<Rightarrow> (int \<Rightarrow> Color) \<Rightarrow> int set" where
  "white_nodes g color = {v \<in> graph_nodes g. color v = WHITE}"

definition visit_ok :: "ASGraph \<Rightarrow> nat \<Rightarrow> bool" where
  "visit_ok g n \<longleftrightarrow>
     (\<forall>color u. card (white_nodes g color) \<le> n \<longrightarrow> u \<in> graph_nodes g \<longrightarrow> color u = WHITE \<longrightarrow>
        (\<exists>b c. dfs g (Visit u) color = Some (b, c) \<and> white_nodes g c \<subseteq> white_nodes g color))"

definition scan_ok :: "ASGraph \<Rightarrow> nat \<Rightarrow> bool" where
  "scan_ok g n \<longleftrightarrow>
     (\<forall>color nbrs. card (white_nodes g color) \<le> n \<longrightarrow> fst ` set nbrs \<subseteq> graph_nodes g \<longrightarrow>
        (\<exists>b c. dfs g (Scan nbrs) color = Some (b, c) \<and> white_nodes g c \<subseteq> white_nodes g color))"

section \<open>Input files and the command line (main.cpp)\<close>

text \<open>
  A file is what the program sees of it: \<open>None\<close> when the stream does not open, else
  the lines that successive \<^verbatim>\<open>std::getline\<close> calls return. The exceptions that the
  program throws are values; a function that can throw returns a sum with the exception on
  the left.
\<close>

datatype cpp_exception = runtime_error | invalid_argument | out_of_range

text \<open>
  Reading a decimal integer, as \<^verbatim>\<open>strtol\<close> (behind \<^verbatim>\<open>std::stoi\<close>) and
  \<^verbatim>\<open>operator>>\<close> do in base 10: leading white space is skipped, one sign is accepted,
  then the longest run of digits is taken; there must be at least one digit. The result
  is the value and the rest of the input.
\<close>

definition is_space :: "char \<Rightarrow> bool" where
  "is_space c \<longleftrightarrow> c \<in> set [CHR '' '', CHR 0x09, CHR 0x0A, CHR 0x0B, CHR 0x0C, CHR 0x0D]"

definition is_digit :: "char \<Rightarrow> bool" where
  "is_digit c \<longleftrightarrow> c \<in> set ''0123456789''"

definition digit_value :: "char \<Rightarrow> int" where
  "digit_value c = int (of_char c) - 48"

definition decimal_value :: "string \<Rightarrow> int" where
  "decimal_value ds = foldl (\<lambda>acc c. acc * 10 + digit_value c) 0 ds"

definition scan_int :: "string \<Rightarrow> (int \<times> string) option" where
  "scan_int s =
     (let s1 = dropWhile is_space s;
          negative = (s1 \<noteq> [] \<and> hd s1 = CHR ''-'');
          s2 = (if s1 \<noteq> [] \<and> (hd s1 = CHR ''-'' \<or> hd s1 = CHR ''+'') then tl s1 else s1);
          ds = takeWhile is_digit s2
      in if ds = [] then None
         else Some (if negative then - decimal_value ds else decimal_value ds,
                    dropWhile is_digit s2))"

text \<open>
  \<^verbatim>\<open>std::stoi\<close> throws \<^verbatim>\<open>invalid_argument\<close> when there is no number and
  \<^verbatim>\<open>out_of_range\<close> when it does not fit an \<^verbatim>\<open>int\<close>; \<^verbatim>\<open>operator>>\<close> sets the fail
  bit in both cases, which is \<open>None\<close> here.
\<close>

definition in_int_range :: "int \<Rightarrow> bool" where
  "in_int_range v \<longleftrightarrow> - (2 ^ 31) \<le> v \<and> v \<le> 2 ^ 31 - 1"

definition stoi :: "string \<Rightarrow> cpp_exception + int" where
  "stoi s =
     (case scan_int s of
        None \<Rightarrow> Inl invalid_argument
      | Some (v, rest) \<Rightarrow> if in_int_range v then Inr v else Inl out_of_range)"

definition extract_int :: "string \<Rightarrow> (int \<times> string) option" where
  "extract_int s =
     (case scan_int s of
        None \<Rightarrow> None
      | Some (v, rest) \<Rightarrow> if in_int_range v then Some (v, rest) else None)"

text \<open>
  \<^verbatim>\<open>ASGraph::load_from_file\<close>: the body of the loop for one line, and the loop. The
  counter of loaded relationships is only printed.
\<close>

definition parse_relationship_line :: "string \<Rightarrow> (int \<times> int \<times> int) option" where
  "parse_relationship_line line =
     (case extract_int (map (\<lambda>c. if c = CHR ''|'' then CHR '' '' else c) line) of
        None \<Rightarrow> None
      | Some (asn1, rest1) \<Rightarrow>
          (case extract_int rest1 of
             None \<Rightarrow> None
           | Some (asn2, rest2) \<Rightarrow>
               (case extract_int rest2 of
                  None \<Rightarrow> None
                | Some (rel_type_int, rest3) \<Rightarrow> Some (asn1, asn2, rel_type_int))))"

definition load_line :: "string \<Rightarrow> ASGraph \<Rightarrow> ASGraph" where
  "load_line line g =
     (if line = [] \<or> hd line = CHR ''#'' then g
      else (case parse_relationship_line line of
              None \<Rightarrow> g
            | Some (asn1, asn2, rel_type_int) \<Rightarrow>
                if rel_type_int = - 1 then add_relationship asn1 asn2 PROVIDER_TO_CUSTOMER g
                else if rel_type_int = 0 then add_relationship asn1 asn2 PEER_TO_PEER g
                else g))"

definition load_from_file :: "string list option \<Rightarrow> ASGraph \<Rightarrow> cpp_exception + ASGraph" where
  "load_from_file file g =
     (case file of None \<Rightarrow> Inl runtime_error | Some lines \<Rightarrow> Inr (fold load_line lines g))"

text \<open>
  \<^verbatim>\<open>load_rov_asns\<close>: a file that does not open gives a warning and the empty set; a
  line is trimmed of blanks, tabs, carriage returns and newlines at both ends, and
  \<^verbatim>\<open>std::stoi\<close> runs inside a \<^verbatim>\<open>try\<close> whose handler skips the line.
\<close>

definition is_blank :: "char \<Rightarrow> bool" where
  "is_blank c \<longleftrightarrow> c \<in> set [CHR '' '', CHR 0x09, CHR 0x0D, CHR 0x0A]"

definition trim :: "string \<Rightarrow> string" where
  "trim line = rev (dropWhile is_blank (rev (dropWhile is_blank line)))"

definition load_rov_line :: "string \<Rightarrow> int set \<Rightarrow> int set" where
  "load_rov_line line rov_asns =
     (let line = trim line
      in if line = [] \<or> hd line = CHR ''#'' then rov_asns
         else (case stoi line of Inl e \<Rightarrow> rov_asns | Inr asn \<Rightarrow> insert asn rov_asns))"

definition load_rov_asns :: "string list option \<Rightarrow> int set" where
  "load_rov_asns file = (case file of None \<Rightarrow> {} | Some lines \<Rightarrow> fold load_rov_line lines {})"

text \<open>
  \<^verbatim>\<open>std::getline(stream, field, delimiter)\<close> on the rest of a line: it fails when
  nothing is left, else it takes the characters up to the delimiter and removes the
  delimiter; an empty field before a delimiter is a success.
\<close>

definition getline_delim :: "char \<Rightarrow> string \<Rightarrow> (string \<times> string) option" where
  "getline_delim d s =
     (if s = [] then None
      else Some (takeWhile (\<lambda>c. c \<noteq> d) s, drop 1 (dropWhile (\<lambda>c. c \<noteq> d) s)))"

text \<open>\<^verbatim>\<open>s.find(sub) != npos\<close>.\<close>

fun contains :: "string \<Rightarrow> string \<Rightarrow> bool" where
  "contains [] sub = (sub = [])"
| "contains (c # cs) sub = (take (length sub) (c # cs) = sub \<or> contains cs sub)"

text \<open>
  \<^verbatim>\<open>load_announcements\<close>, the body of the loop for one line: \<open>None\<close> when one of the
  three \<^verbatim>\<open>getline\<close> calls fails and the row is skipped; else the exception of
  \<^verbatim>\<open>std::stoi\<close>, which nothing in the function catches, or the announcement to seed.
\<close>

definition parse_announcement_line ::
  "string \<Rightarrow> (cpp_exception + int \<times> string \<times> bool) option" where
  "parse_announcement_line line =
     (case getline_delim CHR '','' line of
        None \<Rightarrow> None
      | Some (seed_asn_str, rest1) \<Rightarrow>
          (case getline_delim CHR '','' rest1 of
             None \<Rightarrow> None
           | Some (pfx, rest2) \<Rightarrow>
               (case getline_delim CHR 0x0A rest2 of
                  None \<Rightarrow> None
                | Some (rov_invalid_str, rest3) \<Rightarrow>
                    Some (case stoi seed_asn_str of
                            Inl e \<Rightarrow> Inl e
                          | Inr seed_asn \<Rightarrow>
                              Inr (seed_asn, pfx,
                                   contains rov_invalid_str ''True'' \<or>
                                   contains rov_invalid_str ''true'' \<or>
                                   contains rov_invalid_str ''1'')))))"

fun seed_lines :: "string list \<Rightarrow> BGPSimulator \<Rightarrow> cpp_exception + BGPSimulator" where
  "seed_lines [] sim = Inr sim"
| "seed_lines (line # rest) sim =
     (case parse_announcement_line line of
        None \<Rightarrow> seed_lines rest sim
      | Some (Inl e) \<Rightarrow> Inl e
      | Some (Inr (seed_asn, pfx, rov_inv)) \<Rightarrow>
          seed_lines rest (seed_announcement seed_asn pfx rov_inv sim))"

text \<open>The first line is read and discarded as the header.\<close>

definition load_announcements ::
  "string list option \<Rightarrow> BGPSimulator \<Rightarrow> cpp_exception + BGPSimulator" where
  "load_announcements file sim =
     (case file of None \<Rightarrow> Inl runtime_error | Some lines \<Rightarrow> seed_lines (drop 1 lines) sim)"

text \<open>
  \<^verbatim>\<open>export_ribs_csv\<close> throws when the output file cannot be created. The rows are given
  as AS, prefix and path, in RIB order; the rendering of a row as text and the sort of
  the rows are not modelled.
\<close>

definition export_ribs_csv :: "bool \<Rightarrow> BGPSimulator \<Rightarrow> cpp_exception + (int \<times> string \<times> int list) list" where
  "export_ribs_csv can_create sim =
     (if \<not> can_create then Inl runtime_error
      else Inr (concat (map (\<lambda>(asn, rib). map (\<lambda>(pfx, route). (asn, pfx, as_path route)) rib)
                         (ribs sim))))"

text \<open>
  The command line is the sequence of options that \<^verbatim>\<open>getopt_long\<close> returns: the three
  options with an argument, \<^verbatim>\<open>--help\<close>, and anything else. \<open>parse_options\<close> is the
  \<^verbatim>\<open>while\<close> loop of \<^verbatim>\<open>main\<close>, with the exit code on the left when the loop returns.
\<close>

datatype cli_option = OPT_r string | OPT_a string | OPT_v string | OPT_h | OPT_other

record options =
  relationships_file :: string
  announcements_file :: string
  rov_asns_file :: string

fun parse_options :: "cli_option list \<Rightarrow> options \<Rightarrow> int + options" where
  "parse_options [] opts = Inr opts"
| "parse_options (OPT_r optarg # rest) opts = parse_options rest (opts\<lparr>relationships_file := optarg\<rparr>)"
| "parse_options (OPT_a optarg # rest) opts = parse_options rest (opts\<lparr>announcements_file := optarg\<rparr>)"
| "parse_options (OPT_v optarg # rest) opts = parse_options rest (opts\<lparr>rov_asns_file := optarg\<rparr>)"
| "parse_options (OPT_h # rest) opts = Inl 0"
| "parse_options (OPT_other # rest) opts = Inl 1"

text \<open>
  What a run leaves: its exit code, and the rows of \<^verbatim>\<open>ribs.csv\<close> when it wrote the
  file. \<open>run_simulation\<close> is the \<^verbatim>\<open>try\<close> block of \<^verbatim>\<open>main\<close>, and \<open>main\<close> adds the
  handler, which turns every exception into exit code 1. The last argument says whether
  the output file can be created. The result is \<open>None\<close> when the run reaches undefined
  behaviour.
\<close>

record run_result =
  exit_code :: int
  ribs_csv :: "(int \<times> string \<times> int list) list option"

definition failure :: run_result where
  "failure = \<lparr>exit_code = 1, ribs_csv = None\<rparr>"

definition run_simulation ::
  "options \<Rightarrow> (string \<Rightarrow> string list option) \<Rightarrow> bool \<Rightarrow> (cpp_exception + run_result) option" where
  "run_simulation opts files can_create =
     (case load_from_file (files (relationships_file opts)) empty_graph of
        Inl e \<Rightarrow> Some (Inl e)
      | Inr g \<Rightarrow>
          (case has_customer_provider_cycle g of
             None \<Rightarrow> None
           | Some True \<Rightarrow> Some (Inr failure)
           | Some False \<Rightarrow>
               (let sim = new_simulator g;
                    sim = (if rov_asns_file opts \<noteq> []
                           then set_rov_asns (load_rov_asns (files (rov_asns_file opts))) sim
                           else sim)
                in case load_announcements (files (announcements_file opts)) sim of
                     Inl e \<Rightarrow> Some (Inl e)
                   | Inr sim \<Rightarrow>
                       (case propagate sim of
                          None \<Rightarrow> None
                        | Some (converged, sim) \<Rightarrow>
                            if \<not> converged then Some (Inr failure)
                            else (case export_ribs_csv can_create sim of
                                    Inl e \<Rightarrow> Some (Inl e)
                                  | Inr rows \<Rightarrow>
                                      Some (Inr \<lparr>exit_code = 0, ribs_csv = Some rows\<rparr>))))))"

definition main :: "cli_option list \<Rightarrow> (string \<Rightarrow> string list option) \<Rightarrow> bool \<Rightarrow> run_result option" where
  "main args files can_create =
     (case parse_options args
             \<lparr>relationships_file = [], announcements_file = [], rov_asns_file = []\<rparr> of
        Inl code \<Rightarrow> Some \<lparr>exit_code = code, ribs_csv = None\<rparr>
      | Inr opts \<Rightarrow>
          if relationships_file opts = [] \<or> announcements_file opts = [] then Some failure
          else (case run_simulation opts files can_create of
                  None \<Rightarrow> None
                | Some (Inl e) \<Rightarrow> Some failure
                | Some (Inr result) \<Rightarrow> Some result))"

section \<open>Rank index: customers, chains and the invariant of the flattening\<close>

text \<open>The customers and the providers of an AS, with multiplicity, in adjacency order.\<close>

definition custs :: "ASGraph \<Rightarrow> int \<Rightarrow> int list" where
  "custs g a = map fst (filter (\<lambda>nb. snd nb = PROVIDER_TO_CUSTOMER) (get_neighbors g a))"

definition provs :: "ASGraph \<Rightarrow> int \<Rightarrow> int list" where
  "provs g a = map fst (filter (\<lambda>nb. snd nb = CUSTOMER_TO_PROVIDER) (get_neighbors g a))"

text \<open>
  A graph as \<open>add_relationship\<close> and seeding build it (lemmas \<open>wf_graph_empty\<close>,
  \<open>wf_graph_add\<close>, \<open>wf_graph_insert_asn\<close>): the provider entries mirror the customer
  entries, entry for entry, and every AS with an adjacency entry, on either side, is in
  \<open>all_asns\<close>.
\<close>

definition wf_graph :: "ASGraph \<Rightarrow> bool" where
  "wf_graph g \<longleftrightarrow>
     (\<forall>c p. count_list (provs g c) p = count_list (custs g p) c) \<and>
     (\<forall>x nb. nb \<in> set (get_neighbors g x) \<longrightarrow> x \<in> set (all_asns g) \<and> fst nb \<in> set (all_asns g))"

text \<open>The customer-to-provider relation, and the chains of customer-to-provider edges: a
  chain lists its ASes from the bottom up, and has one edge less than it has ASes.\<close>

definition cp :: "ASGraph \<Rightarrow> (int \<times> int) set" where
  "cp g = {(c, p). (p, CUSTOMER_TO_PROVIDER) \<in> set (get_neighbors g c)}"

fun cp_chain :: "ASGraph \<Rightarrow> int list \<Rightarrow> bool" where
  "cp_chain g [] = False"
| "cp_chain g [a] = True"
| "cp_chain g (a # b # rest) =
     ((b, CUSTOMER_TO_PROVIDER) \<in> set (get_neighbors g a) \<and> cp_chain g (b # rest))"

text \<open>The providers that the loop over the adjacency entries visits.\<close>

definition c2p_targets :: "(int \<times> RelationType) list \<Rightarrow> int list" where
  "c2p_targets nbrs = map fst (filter (\<lambda>nb. snd nb = CUSTOMER_TO_PROVIDER) nbrs)"

text \<open>
  An AS is ranked correctly at \<open>\<rho>\<close>: all its customers are ranked below \<open>\<rho>\<close>, and, unless
  \<open>\<rho>\<close> is 0, one of them is ranked at \<open>\<rho> - 1\<close>.
\<close>

definition ranked_ok :: "ASGraph \<Rightarrow> (int \<rightharpoonup> nat) \<Rightarrow> int \<Rightarrow> nat \<Rightarrow> bool" where
  "ranked_ok g a2r a \<rho> \<longleftrightarrow>
     (\<forall>c \<in> set (custs g a). \<exists>\<rho>'. a2r c = Some \<rho>' \<and> \<rho>' < \<rho>) \<and>
     (\<rho> = 0 \<or> (\<exists>c \<in> set (custs g a). a2r c = Some (\<rho> - 1)))"

text \<open>The number of customer entries of an AS whose customer has no rank yet.\<close>

definition undone :: "ASGraph \<Rightarrow> (int \<rightharpoonup> nat) \<Rightarrow> int \<Rightarrow> nat" where
  "undone g a2r a = length (filter (\<lambda>c. a2r c = None) (custs g a))"

text \<open>
  The invariant of the wave of rank \<open>r\<close>, when the first \<open>k\<close> elements of the queue
  still belong to the wave and the rest was pushed during it: the counters count the
  unranked customers, the queue holds exactly the unranked ASes whose counter is zero,
  every ranked AS is ranked correctly, the ASes of the wave can be ranked at \<open>r\<close>, the
  pushed ones have a customer at rank \<open>r\<close>, and \<open>rank_to_asns\<close> lists what \<open>asn_to_rank\<close>
  maps.
\<close>

definition flat_inv :: "ASGraph \<Rightarrow> nat \<Rightarrow> nat \<Rightarrow> flatten_state \<Rightarrow> bool" where
  "flat_inv g r k st \<longleftrightarrow>
     k \<le> length (zero_customer_queue st) \<and>
     distinct (zero_customer_queue st) \<and>
     set (zero_customer_queue st) \<subseteq> set (all_asns g) \<and>
     dom (fl_asn_to_rank st) \<subseteq> set (all_asns g) \<and>
     (\<forall>a \<in> set (zero_customer_queue st). fl_asn_to_rank st a = None) \<and>
     (\<forall>a \<in> set (all_asns g). cc_get (customer_count st) a = int (undone g (fl_asn_to_rank st) a)) \<and>
     (\<forall>a \<in> set (all_asns g). fl_asn_to_rank st a = None \<longrightarrow> cc_get (customer_count st) a = 0 \<longrightarrow>
        a \<in> set (zero_customer_queue st)) \<and>
     (\<forall>a \<in> set (zero_customer_queue st). cc_get (customer_count st) a = 0) \<and>
     (\<forall>a \<rho>. fl_asn_to_rank st a = Some \<rho> \<longrightarrow> \<rho> \<le> r \<and> ranked_ok g (fl_asn_to_rank st) a \<rho>) \<and>
     (\<forall>a \<in> set (take k (zero_customer_queue st)). ranked_ok g (fl_asn_to_rank st) a r) \<and>
     (\<forall>a \<in> set (drop k (zero_customer_queue st)).
        \<exists>c \<in> set (custs g a). fl_asn_to_rank st c = Some r) \<and>
     length (fl_rank_to_asns st) = Suc r \<and>
     (\<forall>a \<rho>. (fl_asn_to_rank st a = Some \<rho>)
        = (\<rho> < length (fl_rank_to_asns st) \<and> a \<in> set (fl_rank_to_asns st ! \<rho>)))"

text \<open>The invariant of the outer loop: that of the wave about to start.\<close>

definition outer_inv :: "ASGraph \<Rightarrow> nat \<Rightarrow> flatten_state \<Rightarrow> bool" where
  "outer_inv g r st \<longleftrightarrow>
     flat_inv g r (length (zero_customer_queue st))
       (st\<lparr>fl_rank_to_asns := fl_rank_to_asns st @ [[]]\<rparr>)"

section \<open>Runs of the simulator\<close>

text \<open>
  The properties of a run are stated over the states that the simulator can pass through.
  Every change of the state is one of five primitive steps: seeding an announcement of the
  input, flattening the graph, offering a RIB route to a neighbour, taking one queued route
  through the decision process, and clearing the queue of an AS. \<open>process_messages\<close>,
  the three phases and \<open>propagate\<close> are sequences of such steps (lemmas
  \<open>process_messages_steps\<close>, \<open>propagate_iteration_steps\<close>, \<open>propagate_reachable\<close>),
  so a property of all reachable states holds at every point of a run.
\<close>

text \<open>A predicate that holds of every RIB entry, and one that holds of every queued route.\<close>

definition rib_all :: "(int \<Rightarrow> string \<Rightarrow> Route \<Rightarrow> bool) \<Rightarrow> BGPSimulator \<Rightarrow> bool" where
  "rib_all P s \<longleftrightarrow>
     (\<forall>asn rib pfx r. (asn, rib) \<in> set (ribs s) \<longrightarrow> (pfx, r) \<in> set rib \<longrightarrow> P asn pfx r)"

definition queue_all :: "(int \<Rightarrow> string \<Rightarrow> Route \<Rightarrow> bool) \<Rightarrow> BGPSimulator \<Rightarrow> bool" where
  "queue_all Q s \<longleftrightarrow>
     (\<forall>asn q pfx rs r. (asn, q) \<in> set (message_queues s) \<longrightarrow> (pfx, rs) \<in> set q \<longrightarrow>
        r \<in> set rs \<longrightarrow> Q asn pfx r)"

inductive run_step :: "(int \<times> string \<times> bool) list \<Rightarrow> BGPSimulator \<Rightarrow> BGPSimulator \<Rightarrow> bool"
  for anns :: "(int \<times> string \<times> bool) list" where
  seed: "(origin_asn, pfx, flag) \<in> set anns \<Longrightarrow>
         run_step anns s (seed_announcement origin_asn pfx flag s)"
| flatten: "flatten_graph s = Some s' \<Longrightarrow> run_step anns s s'"
| send: "map_of (ribs s) sender = Some rib \<Longrightarrow> (pfx, route) \<in> set rib \<Longrightarrow>
         run_step anns s (send_route_to_neighbor sender receiver route rel s)"
| receive: "map_of (message_queues s) asn = Some q \<Longrightarrow> (pfx, routes) \<in> set q \<Longrightarrow>
         route \<in> set routes \<Longrightarrow> process_route asn pfx route s = Some s' \<Longrightarrow>
         run_step anns s s'"
| clear: "run_step anns s (s\<lparr>message_queues := AList.update asn [] (message_queues s)\<rparr>)"

text \<open>Any number of steps; the states reachable from a fresh simulator.\<close>

definition run_steps :: "(int \<times> string \<times> bool) list \<Rightarrow> BGPSimulator \<Rightarrow> BGPSimulator \<Rightarrow> bool" where
  "run_steps anns = rtranclp (run_step anns)"

definition start_state :: "ASGraph \<Rightarrow> int set \<Rightarrow> BGPSimulator" where
  "start_state g rov = set_rov_asns rov (new_simulator g)"

definition reachable :: "(int \<times> string \<times> bool) list \<Rightarrow> ASGraph \<Rightarrow> int set \<Rightarrow> BGPSimulator \<Rightarrow> bool" where
  "reachable anns g rov s \<longleftrightarrow> run_steps anns (start_state g rov) s"

text \<open>The shape of the invariants proved below: the ROV set is the initial one, a predicate
  holds of every RIB entry and another of every queued route.\<close>

definition routes_inv ::
  "(int \<Rightarrow> string \<Rightarrow> Route \<Rightarrow> bool) \<Rightarrow> (int \<Rightarrow> string \<Rightarrow> Route \<Rightarrow> bool) \<Rightarrow> int set \<Rightarrow> BGPSimulator \<Rightarrow> bool"
  where
  "routes_inv P Q rov s \<longleftrightarrow> rov_enabled_asns s = rov \<and> rib_all P s \<and> queue_all Q s"

text \<open>Paths are never empty, so the decision process never reads out of range.\<close>

definition paths_nonempty :: "BGPSimulator \<Rightarrow> bool" where
  "paths_nonempty s \<longleftrightarrow>
     rib_all (\<lambda>a p r. as_path r \<noteq> []) s \<and> queue_all (\<lambda>a p r. as_path r \<noteq> []) s"

text \<open>The fields that sending and processing leave alone.\<close>

definition same_frame :: "BGPSimulator \<Rightarrow> BGPSimulator \<Rightarrow> bool" where
  "same_frame s s' \<longleftrightarrow> graph s' = graph s \<and> rov_enabled_asns s' = rov_enabled_asns s \<and>
     asn_to_rank s' = asn_to_rank s \<and> rank_to_asns s' = rank_to_asns s"

text \<open>A sequence of steps that keeps those fields.\<close>

definition advance :: "(int \<times> string \<times> bool) list \<Rightarrow> BGPSimulator \<Rightarrow> BGPSimulator \<Rightarrow> bool" where
  "advance anns s t \<longleftrightarrow> run_steps anns s t \<and> same_frame s t"

text \<open>
  The state after \<open>k\<close> rounds of the propagation loop, and the value of
  \<^verbatim>\<open>prev_total_routes\<close> after \<open>k\<close> rounds: the initial value before the first
  round, the total RIB entry count at the end of round \<open>k\<close> afterwards.
\<close>

fun iterate_n :: "nat \<Rightarrow> BGPSimulator \<Rightarrow> BGPSimulator option" where
  "iterate_n 0 s = Some s"
| "iterate_n (Suc k) s =
     (case propagate_iteration s of None \<Rightarrow> None | Some s' \<Rightarrow> iterate_n k s')"

fun recorded_total :: "nat \<Rightarrow> BGPSimulator \<Rightarrow> nat \<Rightarrow> nat option" where
  "recorded_total prev s 0 = Some prev"
| "recorded_total prev s (Suc k) = map_option get_rib_count (iterate_n (Suc k) s)"

text \<open>Some round among the first \<open>n\<close> ends with the total that was recorded before
  it.\<close>

definition stable_within :: "nat \<Rightarrow> nat \<Rightarrow> BGPSimulator \<Rightarrow> bool" where
  "stable_within n prev s \<longleftrightarrow>
     (\<exists>j. 1 \<le> j \<and> j \<le> n \<and> recorded_total prev s j = recorded_total prev s (j - 1))"

text \<open>Seeding a list of parsed announcements, as the loop of \<^verbatim>\<open>load_announcements\<close>
  does with the rows it accepts.\<close>

definition seed_rows :: "(int \<times> string \<times> bool) list \<Rightarrow> BGPSimulator \<Rightarrow> BGPSimulator" where
  "seed_rows rows s = fold (\<lambda>(origin_asn, pfx, flag). seed_announcement origin_asn pfx flag) rows s"

text \<open>The outcome of \<open>propagate\<close>: a RIB entry of the final state, and the boolean
  result.\<close>

definition final_rib :: "BGPSimulator \<Rightarrow> int \<Rightarrow> string \<Rightarrow> Route option" where
  "final_rib s asn pfx =
     (case propagate s of None \<Rightarrow> None | Some (converged, s') \<Rightarrow> rib_lookup s' asn pfx)"

definition propagate_result :: "BGPSimulator \<Rightarrow> bool option" where
  "propagate_result s = map_option fst (propagate s)"

subsection \<open>Example inputs\<close>

text \<open>AS 1 is the provider of AS 2.\<close>

definition example_graph :: ASGraph where
  "example_graph = add_relationship 1 2 PROVIDER_TO_CUSTOMER empty_graph"

text \<open>AS 1 is ROV-enabled and seeds an invalid announcement of \<open>p\<close>; AS 2 seeds a valid
  one.\<close>

definition example_invalid_seed :: BGPSimulator where
  "example_invalid_seed =
     seed_rows [(1, ''p'', True), (2, ''p'', False)] (start_state example_graph {1})"

text \<open>Input files: a topology with AS 1 the provider of ASes 2 and 3 and one announcement;
  no other file opens.\<close>

definition example_files :: "string \<Rightarrow> string list option" where
  "example_files =
     Map.empty(''rel'' \<mapsto> [''# topology'', ''1|2|-1|bgp'', ''1|3|-1''],
               ''ann'' \<mapsto> [''asn,prefix,rov_invalid'', ''1,10.0.0.0/24,False''])"

text \<open>An announcements file whose only row has a non-numeric origin ASN, and one whose
  only row has two fields.\<close>

definition bad_row_files :: "string \<Rightarrow> string list option" where
  "bad_row_files =
     Map.empty(''rel'' \<mapsto> [''1|2|-1''],
               ''ann'' \<mapsto> [''asn,prefix,rov_invalid'', ''abc,10.0.0.0/24,False''])"

definition short_row_files :: "string \<Rightarrow> string list option" where
  "short_row_files =
     Map.empty(''rel'' \<mapsto> [''1|2|-1''],
               ''ann'' \<mapsto> [''asn,prefix,rov_invalid'', ''abc,10.0.0.0/24''])"

text \<open>AS 2 seeds \<open>p\<close>; nobody is ROV-enabled.\<close>

definition example_seeded :: BGPSimulator where
  "example_seeded = seed_rows [(2, ''p'', False)] (start_state example_graph {})"

definition example_final :: BGPSimulator where
  "example_final = snd (the (propagate example_seeded))"

text \<open>The same with AS 1 ROV-enabled.\<close>

definition example_rov_seeded :: BGPSimulator where
  "example_rov_seeded = seed_rows [(2, ''p'', False)] (start_state example_graph {1})"

definition example_rov_final :: BGPSimulator where
  "example_rov_final = snd (the (propagate example_rov_seeded))"

section \<open>Properties of the decision process and the export policy\<close>

lemma pref_of_spec: "pref_of t = int (spec_local_pref t)"
  by (cases t) (simp_all add: pref_of_def)

lemma next_hop_spec: "p \<noteq> [] \<Longrightarrow> next_hop p = Some (spec_next_hop p)"
proof (cases p)
  case Nil
  assume "p \<noteq> []"
  with Nil show ?thesis by simp
next
  case (Cons a q)
  then show ?thesis by (cases q) (simp_all add: next_hop_def)
qed

text \<open>
  Claim C1. For routes with non-empty paths, \<open>better_route\<close> returns true exactly when the
  candidate is strictly better than the incumbent under the ordered criteria (ROV at an
  ROV-enabled deciding AS, then local preference 2/1/0, then shorter path, then lower
  next-hop ASN); it returns false for a candidate equal to the incumbent, and it never
  prefers each of two routes over the other.
\<close>

theorem better_route_decision:
  assumes "as_path C \<noteq> []" and "as_path E \<noteq> []"
  shows "better_route rov C E D = Some (spec_strictly_better rov C E D) \<and>
         better_route rov E E D = Some False \<and>
         \<not> (better_route rov C E D = Some True \<and> better_route rov E C D = Some True)"
proof -
  have nC: "next_hop (as_path C) = Some (spec_next_hop (as_path C))"
    using assms(1) by (rule next_hop_spec)
  have nE: "next_hop (as_path E) = Some (spec_next_hop (as_path E))"
    using assms(2) by (rule next_hop_spec)
  have 1: "better_route rov C E D = Some (spec_strictly_better rov C E D)"
    unfolding better_route_def spec_strictly_better_def Let_def pref_of_spec nC nE
    by auto
  have 2: "better_route rov E E D = Some False"
    unfolding better_route_def Let_def nE by simp
  have 3: "\<not> (better_route rov C E D = Some True \<and> better_route rov E C D = Some True)"
    unfolding better_route_def Let_def pref_of_spec nC nE
    by (auto split: if_splits)
  from 1 2 3 show ?thesis by blast
qed

theorem better_route_decision_witness:
  "better_route {30}
     \<lparr>prefix = ''p'', as_path = [30, 10, 40], announcement_type = LEARNED_FROM_PROVIDER,
      rov_invalid = False\<rparr>
     \<lparr>prefix = ''p'', as_path = [30, 20, 40], announcement_type = LEARNED_FROM_PROVIDER,
      rov_invalid = False\<rparr> 30 = Some True"
proof -
  let ?C = "\<lparr>prefix = ''p'', as_path = [30, 10, 40],
             announcement_type = LEARNED_FROM_PROVIDER, rov_invalid = False\<rparr>"
  let ?E = "\<lparr>prefix = ''p'', as_path = [30, 20, 40],
             announcement_type = LEARNED_FROM_PROVIDER, rov_invalid = False\<rparr>"
  have c: "as_path ?C \<noteq> []" and e: "as_path ?E \<noteq> []" by simp_all
  have "spec_strictly_better {30} ?C ?E 30"
    by (simp add: spec_strictly_better_def)
  with better_route_decision [OF c e, of "{30}" 30] show ?thesis by simp
qed

text \<open>
  Claim C2. Export is permitted exactly when the route was learned from a customer, or the
  export edge is provider-to-customer; in every other case it is forbidden.
\<close>

theorem can_export_policy:
  "can_export R rel \<longleftrightarrow>
     announcement_type R = LEARNED_FROM_CUSTOMER \<or> rel = PROVIDER_TO_CUSTOMER"
  by (cases "announcement_type R") (simp_all add: can_export_def)

section \<open>The cycle check always returns\<close>

lemma finite_white: "finite (white_nodes g color)"
  by (simp add: white_nodes_def graph_nodes_def)

lemma neighbors_nodes: "fst ` set (get_neighbors g u) \<subseteq> graph_nodes g"
proof (cases "map_of (adjacency g) u")
  case None
  then show ?thesis by (simp add: get_neighbors_def)
next
  case (Some nbrs)
  from map_of_SomeD [OF Some] have "fst ` set (snd (u, nbrs)) \<subseteq> graph_nodes g"
    unfolding graph_nodes_def by blast
  with Some show ?thesis by (simp add: get_neighbors_def)
qed

lemma dfs_Visit:
  "dfs g (Visit u) color =
     Option.bind (dfs g (Scan (get_neighbors g u)) (color(u := GRAY)))
       (\<lambda>(found, color').
          if found then Some (True, color') else Some (False, color'(u := BLACK)))"
  by (subst dfs.simps) simp

lemma dfs_Scan_Nil: "dfs g (Scan []) color = Some (False, color)"
  by (subst dfs.simps) simp

lemma dfs_Scan_Cons:
  "dfs g (Scan ((v, rel) # rest)) color =
     (if rel \<noteq> CUSTOMER_TO_PROVIDER then dfs g (Scan rest) color
      else if color v = GRAY then Some (True, color)
      else if color v = WHITE
      then Option.bind (dfs g (Visit v) color)
             (\<lambda>(found, color').
                if found then Some (True, color') else dfs g (Scan rest) color')
      else dfs g (Scan rest) color)"
  by (subst dfs.simps) simp

lemma scan_from_visit:
  assumes V: "visit_ok g n"
  shows "scan_ok g n"
proof -
  have "\<exists>b c. dfs g (Scan nbrs) color = Some (b, c) \<and> white_nodes g c \<subseteq> white_nodes g color"
    if "card (white_nodes g color) \<le> n" and "fst ` set nbrs \<subseteq> graph_nodes g" for color nbrs
    using that
  proof (induction nbrs arbitrary: color)
    case Nil
    show ?case by (auto simp: dfs_Scan_Nil)
  next
    case (Cons e rest)
    obtain v rel where e: "e = (v, rel)" by (cases e)
    from Cons.prems(2) e have v: "v \<in> graph_nodes g" and rest: "fst ` set rest \<subseteq> graph_nodes g"
      by auto
    note IH = Cons.IH [OF _ rest]
    show ?case
    proof (cases "rel = CUSTOMER_TO_PROVIDER \<and> color v = WHITE")
      case False
      with IH [OF Cons.prems(1)] e show ?thesis
        by (cases "color v") (auto simp: dfs_Scan_Cons)
    next
      case True
      with V Cons.prems(1) v obtain b c where bc: "dfs g (Visit v) color = Some (b, c)"
        "white_nodes g c \<subseteq> white_nodes g color"
        unfolding visit_ok_def by blast
      from bc(2) Cons.prems(1) have "card (white_nodes g c) \<le> n"
        using card_mono [OF finite_white bc(2)] by simp
      from IH [OF this] bc True e show ?thesis
        by (auto simp: dfs_Scan_Cons)
    qed
  qed
  then show ?thesis by (simp add: scan_ok_def)
qed

lemma visit_zero: "visit_ok g 0"
proof -
  have False if "card (white_nodes g color) \<le> 0" "u \<in> graph_nodes g" "color u = WHITE" for color u
  proof -
    from that(1) finite_white [of g color] have "white_nodes g color = {}" by simp
    with that(2,3) show False by (auto simp: white_nodes_def)
  qed
  then show ?thesis unfolding visit_ok_def by blast
qed

lemma visit_from_scan:
  assumes S: "scan_ok g n"
  shows "visit_ok g (Suc n)"
proof -
  have "\<exists>b c. dfs g (Visit u) color = Some (b, c) \<and> white_nodes g c \<subseteq> white_nodes g color"
    if card: "card (white_nodes g color) \<le> Suc n" and u: "u \<in> graph_nodes g" "color u = WHITE"
    for color u
  proof -
    have w: "white_nodes g (color(u := GRAY)) = white_nodes g color - {u}"
      by (auto simp: white_nodes_def)
    from u have "u \<in> white_nodes g color" by (simp add: white_nodes_def)
    with card finite_white [of g color] have "card (white_nodes g (color(u := GRAY))) \<le> n"
      unfolding w by simp
    with S neighbors_nodes [of g u]
    obtain b c where bc: "dfs g (Scan (get_neighbors g u)) (color(u := GRAY)) = Some (b, c)"
      "white_nodes g c \<subseteq> white_nodes g (color(u := GRAY))"
      unfolding scan_ok_def by blast
    have "white_nodes g (c(u := BLACK)) \<subseteq> white_nodes g c" by (auto simp: white_nodes_def)
    with bc w show ?thesis by (auto simp: dfs_Visit)
  qed
  then show ?thesis by (simp add: visit_ok_def)
qed

lemma visit_ok_all: "visit_ok g n"
  by (induction n) (auto intro: visit_zero visit_from_scan scan_from_visit)

lemma dfs_visit_total:
  assumes "u \<in> graph_nodes g" and "color u = WHITE"
  shows "\<exists>b c. dfs g (Visit u) color = Some (b, c)"
  using visit_ok_all [of g "card (white_nodes g color)"] assms
  unfolding visit_ok_def by blast

lemma cycle_loop_total:
  "set asns \<subseteq> graph_nodes g \<Longrightarrow> \<exists>b. cycle_loop g asns color = Some b"
proof (induction asns arbitrary: color)
  case Nil
  show ?case by auto
next
  case (Cons asn rest)
  from Cons.prems have rest: "set rest \<subseteq> graph_nodes g" and asn: "asn \<in> graph_nodes g" by auto
  show ?case
  proof (cases "color asn = WHITE")
    case False
    with Cons.IH [OF rest] show ?thesis by simp
  next
    case True
    from dfs_visit_total [of asn g color] asn True obtain b c where "dfs g (Visit asn) color = Some (b, c)"
      by blast
    with Cons.IH [OF rest, of c] True show ?thesis by auto
  qed
qed

lemma has_customer_provider_cycle_total: "\<exists>b. has_customer_provider_cycle g = Some b"
  unfolding has_customer_provider_cycle_def
  by (rule cycle_loop_total) (simp add: graph_nodes_def)

section \<open>Invariants of runs\<close>

lemma run_steps_refl: "run_steps anns s s"
  by (simp add: run_steps_def)

lemma run_steps_trans: "run_steps anns s t \<Longrightarrow> run_steps anns t u \<Longrightarrow> run_steps anns s u"
  by (simp add: run_steps_def)

lemma set_update_subset: "set (AList.update k v al) \<subseteq> insert (k, v) (set al)"
  by (induction al) auto

lemma entry_of_mem: "x \<in> set (entry_of m k) \<Longrightarrow> \<exists>v. (k, v) \<in> set m \<and> x \<in> set v"
proof (cases "map_of m k")
  case None
  assume "x \<in> set (entry_of m k)"
  with None show ?thesis by (simp add: entry_of_def)
next
  case (Some v)
  assume "x \<in> set (entry_of m k)"
  with Some map_of_SomeD [OF Some] show ?thesis by (auto simp: entry_of_def)
qed

lemma rib_all_store:
  assumes "rib_all P s" and "P asn pfx route"
  shows "rib_all P (s\<lparr>ribs := rib_store asn pfx route (ribs s)\<rparr>)"
proof -
  have "P a p r" if e: "(a, rib) \<in> set (rib_store asn pfx route (ribs s))" and m: "(p, r) \<in> set rib"
    for a rib p r
  proof -
    from e set_update_subset
    have "(a, rib) = (asn, AList.update pfx route (entry_of (ribs s) asn)) \<or> (a, rib) \<in> set (ribs s)"
      unfolding rib_store_def by fastforce
    then show ?thesis
    proof
      assume "(a, rib) \<in> set (ribs s)"
      with m assms(1) show ?thesis by (auto simp: rib_all_def)
    next
      assume eq: "(a, rib) = (asn, AList.update pfx route (entry_of (ribs s) asn))"
      with m set_update_subset
      have "(p, r) = (pfx, route) \<or> (p, r) \<in> set (entry_of (ribs s) asn)" by fastforce
      then show ?thesis
      proof
        assume "(p, r) = (pfx, route)"
        with eq assms(2) show ?thesis by simp
      next
        assume "(p, r) \<in> set (entry_of (ribs s) asn)"
        from entry_of_mem [OF this] eq assms(1) show ?thesis by (auto simp: rib_all_def)
      qed
    qed
  qed
  then show ?thesis by (auto simp: rib_all_def)
qed

lemma queue_all_push:
  assumes "queue_all Q s" and "Q asn pfx route"
  shows "queue_all Q (s\<lparr>message_queues := queue_push asn pfx route (message_queues s)\<rparr>)"
proof -
  let ?q = "entry_of (message_queues s) asn"
  have old: "Q asn p r" if "(p, rs) \<in> set ?q" and "r \<in> set rs" for p rs r
    using entry_of_mem [OF that(1)] that(2) assms(1) by (auto simp: queue_all_def)
  have "Q a p r" if e: "(a, q) \<in> set (queue_push asn pfx route (message_queues s))"
    and m: "(p, rs) \<in> set q" and r: "r \<in> set rs" for a q p rs r
  proof -
    from e set_update_subset
    have "(a, q) = (asn, AList.update pfx (entry_of ?q pfx @ [route]) ?q) \<or>
          (a, q) \<in> set (message_queues s)"
      unfolding queue_push_def by fastforce
    then show ?thesis
    proof
      assume "(a, q) \<in> set (message_queues s)"
      with m r assms(1) show ?thesis by (auto simp: queue_all_def)
    next
      assume eq: "(a, q) = (asn, AList.update pfx (entry_of ?q pfx @ [route]) ?q)"
      with m set_update_subset
      have "(p, rs) = (pfx, entry_of ?q pfx @ [route]) \<or> (p, rs) \<in> set ?q" by fastforce
      then show ?thesis
      proof
        assume "(p, rs) \<in> set ?q"
        from old [OF this r] eq show ?thesis by simp
      next
        assume eq2: "(p, rs) = (pfx, entry_of ?q pfx @ [route])"
        with r have "r = route \<or> r \<in> set (entry_of ?q pfx)" by auto
        then show ?thesis
        proof
          assume "r = route"
          with eq eq2 assms(2) show ?thesis by simp
        next
          assume "r \<in> set (entry_of ?q pfx)"
          from entry_of_mem [OF this] obtain v where "(pfx, v) \<in> set ?q" and "r \<in> set v" by blast
          from old [OF this] eq eq2 show ?thesis by simp
        qed
      qed
    qed
  qed
  then show ?thesis by (auto simp: queue_all_def)
qed

lemma queue_all_clear:
  assumes "queue_all Q s"
  shows "queue_all Q (s\<lparr>message_queues := AList.update asn [] (message_queues s)\<rparr>)"
proof -
  have "set (AList.update asn [] (message_queues s)) \<subseteq> insert (asn, []) (set (message_queues s))"
    by (rule set_update_subset)
  with assms show ?thesis by (fastforce simp: queue_all_def)
qed

lemma process_route_cases:
  assumes "process_route asn pfx route s = Some s'"
  shows "s' = s \<or> (s' = s\<lparr>ribs := rib_store asn pfx route (ribs s)\<rparr> \<and>
                   \<not> (asn \<in> rov_enabled_asns s \<and> rov_invalid route))"
  using assms
  by (auto simp: process_route_def split: if_splits option.splits bool.splits)

lemma step_invariant:
  assumes st: "run_step anns s t"
    and inv: "routes_inv P Q rov s"
    and seedP: "\<And>a p f. (a, p, f) \<in> set anns \<Longrightarrow>
          P a p \<lparr>prefix = p, as_path = [a], announcement_type = LEARNED_FROM_CUSTOMER, rov_invalid = f\<rparr>"
    and sendQ: "\<And>a p r b rel. P a p r \<Longrightarrow> b \<notin> set (as_path r) \<Longrightarrow> can_export r rel \<Longrightarrow>
          Q b (prefix r) (sent_route b r rel)"
    and recvP: "\<And>a p r. Q a p r \<Longrightarrow> \<not> (a \<in> rov \<and> rov_invalid r) \<Longrightarrow> P a p r"
  shows "routes_inv P Q rov t"
  using st inv
proof (induction rule: run_step.induct)
  case (seed origin_asn pfx flag s)
  from seed.prems seedP [OF seed.hyps(1)] rib_all_store [of P s origin_asn pfx]
  show ?case
    by (simp add: routes_inv_def seed_announcement_def Let_def rib_all_def queue_all_def)
next
  case (flatten s s')
  then show ?case
    by (auto simp: routes_inv_def flatten_graph_def Let_def rib_all_def queue_all_def
        split: if_splits)
next
  case (send s sender rib pfx route receiver rel)
  from send.hyps send.prems have P: "P sender pfx route"
    by (auto simp: routes_inv_def rib_all_def dest: map_of_SomeD)
  show ?case
  proof (cases "receiver \<in> set (as_path route) \<or> \<not> can_export route rel")
    case True
    with send.prems show ?thesis by (auto simp: send_route_to_neighbor_def)
  next
    case False
    with sendQ [OF P, of receiver rel] have "Q receiver (prefix route) (sent_route receiver route rel)"
      by simp
    from queue_all_push [of Q s receiver "prefix route" "sent_route receiver route rel"] this
      send.prems False show ?thesis
      by (simp add: routes_inv_def send_route_to_neighbor_def rib_all_def)
  qed
next
  case (receive s asn q pfx routes route s')
  from receive.hyps(1,2,3) receive.prems have Q: "Q asn pfx route"
    by (auto simp: routes_inv_def queue_all_def dest: map_of_SomeD)
  from process_route_cases [OF receive.hyps(4)] show ?case
  proof
    assume "s' = s"
    with receive.prems show ?thesis by simp
  next
    assume a: "s' = s\<lparr>ribs := rib_store asn pfx route (ribs s)\<rparr> \<and>
       \<not> (asn \<in> rov_enabled_asns s \<and> rov_invalid route)"
    with receive.prems recvP [OF Q] have "P asn pfx route" by (simp add: routes_inv_def)
    from rib_all_store [of P s asn pfx route] this receive.prems a show ?thesis
      by (simp add: routes_inv_def queue_all_def)
  qed
next
  case (clear s asn)
  from queue_all_clear [of Q s asn] clear.prems show ?case
    by (simp add: routes_inv_def rib_all_def)
qed

lemma steps_invariant:
  assumes st: "run_steps anns s t"
    and inv: "routes_inv P Q rov s"
    and seedP: "\<And>a p f. (a, p, f) \<in> set anns \<Longrightarrow>
          P a p \<lparr>prefix = p, as_path = [a], announcement_type = LEARNED_FROM_CUSTOMER, rov_invalid = f\<rparr>"
    and sendQ: "\<And>a p r b rel. P a p r \<Longrightarrow> b \<notin> set (as_path r) \<Longrightarrow> can_export r rel \<Longrightarrow>
          Q b (prefix r) (sent_route b r rel)"
    and recvP: "\<And>a p r. Q a p r \<Longrightarrow> \<not> (a \<in> rov \<and> rov_invalid r) \<Longrightarrow> P a p r"
  shows "routes_inv P Q rov t"
  using st [unfolded run_steps_def] inv
proof (induction rule: rtranclp_induct)
  case base
  then show ?case .
next
  case (step t u)
  from step.hyps(2) step.IH [OF step.prems] seedP sendQ recvP show ?case
    by (rule step_invariant)
qed

lemma start_inv: "routes_inv P Q rov (start_state g rov)"
  by (simp add: routes_inv_def start_state_def set_rov_asns_def new_simulator_def
      rib_all_def queue_all_def)

lemma reachable_invariant:
  assumes r: "reachable anns g rov s"
    and seedP: "\<And>a p f. (a, p, f) \<in> set anns \<Longrightarrow>
          P a p \<lparr>prefix = p, as_path = [a], announcement_type = LEARNED_FROM_CUSTOMER, rov_invalid = f\<rparr>"
    and sendQ: "\<And>a p r b rel. P a p r \<Longrightarrow> b \<notin> set (as_path r) \<Longrightarrow> can_export r rel \<Longrightarrow>
          Q b (prefix r) (sent_route b r rel)"
    and recvP: "\<And>a p r. Q a p r \<Longrightarrow> \<not> (a \<in> rov \<and> rov_invalid r) \<Longrightarrow> P a p r"
  shows "routes_inv P Q rov s"
  using r [unfolded reachable_def] start_inv seedP sendQ recvP by (rule steps_invariant)

lemma paths_nonempty_steps:
  assumes "run_steps anns s t" and "paths_nonempty s"
  shows "paths_nonempty t"
proof -
  from assms(2) have "routes_inv (\<lambda>a p r. as_path r \<noteq> []) (\<lambda>a p r. as_path r \<noteq> [])
      (rov_enabled_asns s) s"
    by (simp add: routes_inv_def paths_nonempty_def)
  with assms(1) have "routes_inv (\<lambda>a p r. as_path r \<noteq> []) (\<lambda>a p r. as_path r \<noteq> [])
      (rov_enabled_asns s) t"
    by (rule steps_invariant) (simp_all add: sent_route_def prepend_def)
  then show ?thesis by (simp add: routes_inv_def paths_nonempty_def)
qed

lemma paths_nonempty_reachable: "reachable anns g rov s \<Longrightarrow> paths_nonempty s"
  unfolding reachable_def
  by (erule paths_nonempty_steps)
     (simp add: paths_nonempty_def start_state_def set_rov_asns_def new_simulator_def
       rib_all_def queue_all_def)

section \<open>Processing, sending and the phases as sequences of steps\<close>

lemma fold_inv: "(\<And>x s. x \<in> set xs \<Longrightarrow> I s \<Longrightarrow> I (f x s)) \<Longrightarrow> I s \<Longrightarrow> I (fold f xs s)"
  by (induction xs arbitrary: s) simp_all

lemma fold_option_inv:
  "(\<And>x s. x \<in> set xs \<Longrightarrow> I s \<Longrightarrow> \<exists>s'. f x s = Some s' \<and> I s') \<Longrightarrow> I s \<Longrightarrow>
     \<exists>s'. fold_option f xs s = Some s' \<and> I s'"
proof (induction xs arbitrary: s)
  case Nil
  then show ?case by simp
next
  case (Cons x xs)
  from Cons.prems(1) [of x s] Cons.prems(2) obtain s1 where s1: "f x s = Some s1" "I s1" by auto
  have "\<exists>s'. fold_option f xs s1 = Some s' \<and> I s'"
  proof (rule Cons.IH)
    show "I s1" by (rule s1(2))
  next
    fix y t assume "y \<in> set xs" "I t"
    with Cons.prems(1) [of y t] show "\<exists>s'. f y t = Some s' \<and> I s'" by simp
  qed
  with s1 show ?case by simp
qed

lemma better_route_total:
  "as_path C \<noteq> [] \<Longrightarrow> as_path E \<noteq> [] \<Longrightarrow> \<exists>b. better_route rov C E D = Some b"
  by (simp add: better_route_def Let_def next_hop_def)

lemma rib_lookup_mem:
  "rib_lookup s asn pfx = Some r \<Longrightarrow> \<exists>rib. (asn, rib) \<in> set (ribs s) \<and> (pfx, r) \<in> set rib"
  by (auto simp: rib_lookup_def split: option.splits dest: map_of_SomeD)

lemma same_frame_refl: "same_frame s s"
  by (simp add: same_frame_def)

lemma same_frame_trans: "same_frame s t \<Longrightarrow> same_frame t u \<Longrightarrow> same_frame s u"
  by (simp add: same_frame_def)

lemma process_route_frame:
  "process_route asn pfx route s = Some s' \<Longrightarrow>
     same_frame s s' \<and> message_queues s' = message_queues s"
  by (auto simp: process_route_def same_frame_def split: if_splits option.splits bool.splits)

lemma send_route_frame:
  "same_frame s (send_route_to_neighbor a b r rel s) \<and>
   ribs (send_route_to_neighbor a b r rel s) = ribs s"
  by (simp add: send_route_to_neighbor_def same_frame_def)

lemma process_route_steps:
  assumes ne: "paths_nonempty s" and q: "map_of (message_queues s) asn = Some q"
    and m: "(pfx, routes) \<in> set q" "route \<in> set routes"
  shows "\<exists>s'. process_route asn pfx route s = Some s' \<and> run_step anns s s' \<and>
           same_frame s s' \<and> message_queues s' = message_queues s"
proof -
  from ne q m have nr: "as_path route \<noteq> []"
    by (auto simp: paths_nonempty_def queue_all_def dest: map_of_SomeD)
  have "\<exists>s'. process_route asn pfx route s = Some s'"
  proof (cases "rib_lookup s asn pfx")
    case None
    then show ?thesis by (simp add: process_route_def)
  next
    case (Some existing)
    from rib_lookup_mem [OF Some] ne have "as_path existing \<noteq> []"
      by (auto simp: paths_nonempty_def rib_all_def)
    from better_route_total [OF nr this, of "rov_enabled_asns s" asn] Some show ?thesis
      by (auto simp: process_route_def split: bool.splits)
  qed
  then obtain s' where s': "process_route asn pfx route s = Some s'" ..
  from run_step.receive [OF q m s'] process_route_frame [OF s'] s' show ?thesis by simp
qed

lemma advance_refl: "advance anns s s"
  by (simp add: advance_def run_steps_refl same_frame_refl)

lemma advance_trans: "advance anns s t \<Longrightarrow> advance anns t u \<Longrightarrow> advance anns s u"
  by (auto simp: advance_def intro: run_steps_trans same_frame_trans)

lemma advance_nonempty: "advance anns s t \<Longrightarrow> paths_nonempty s \<Longrightarrow> paths_nonempty t"
  by (auto simp: advance_def intro: paths_nonempty_steps)

lemma process_messages_steps:
  assumes ne: "paths_nonempty s"
  shows "\<exists>s'. process_messages asn s = Some s' \<and> advance anns s s'"
proof (cases "map_of (message_queues s) asn")
  case None
  then show ?thesis by (simp add: process_messages_def advance_refl)
next
  case (Some q)
  define I where "I t \<longleftrightarrow> advance anns s t \<and> message_queues t = message_queues s" for t
  have step: "\<exists>u. process_route asn pfx route t = Some u \<and> I u"
    if "(pfx, routes) \<in> set q" and "route \<in> set routes" and t: "I t" for pfx routes route t
  proof -
    from t Some have mq: "map_of (message_queues t) asn = Some q" by (simp add: I_def)
    from t ne have "paths_nonempty t" by (auto simp: I_def intro: advance_nonempty)
    from process_route_steps [OF this mq that(1,2), of anns]
    obtain u where u: "process_route asn pfx route t = Some u" "run_step anns t u"
      "same_frame t u" "message_queues u = message_queues t" by blast
    from u(2,3) have "advance anns t u"
      by (simp add: advance_def run_steps_def)
    with t u show ?thesis by (auto simp: I_def intro: advance_trans)
  qed
  have inner: "\<exists>t'. fold_option (process_route asn pfx) routes t = Some t' \<and> I t'"
    if "(pfx, routes) \<in> set q" and "I t" for pfx routes t
    by (rule fold_option_inv [where I = I]) (use that step in blast)+
  have "\<exists>t. fold_option (\<lambda>(pfx, routes). fold_option (process_route asn pfx) routes) q s = Some t
          \<and> I t"
  proof (rule fold_option_inv [where I = I])
    show "I s" by (simp add: I_def advance_refl)
  next
    fix x t assume x: "x \<in> set q" and t: "I t"
    obtain pfx routes where eq: "x = (pfx, routes)" by (cases x)
    from x eq have "(pfx, routes) \<in> set q" by simp
    from inner [OF this t] eq
    show "\<exists>s'. (case x of (pfx, routes) \<Rightarrow> fold_option (process_route asn pfx) routes) t = Some s'
            \<and> I s'"
      by simp
  qed
  then obtain t where t: "fold_option (\<lambda>(pfx, routes). fold_option (process_route asn pfx) routes) q s
       = Some t" "I t" by blast
  let ?u = "t\<lparr>message_queues := AList.update asn [] (message_queues t)\<rparr>"
  have "run_step anns t ?u" by (rule run_step.clear)
  then have "advance anns t ?u" by (simp add: advance_def run_steps_def same_frame_def)
  with t(2) have "advance anns s ?u" by (auto simp: I_def intro: advance_trans)
  with t Some show ?thesis by (simp add: process_messages_def)
qed

lemma send_all_steps: "advance anns s (send_all rel0 asn s) \<and> ribs (send_all rel0 asn s) = ribs s"
proof (cases "map_of (ribs s) asn")
  case None
  then show ?thesis by (simp add: send_all_def advance_refl)
next
  case (Some rib)
  define I where "I t \<longleftrightarrow> advance anns s t \<and> ribs t = ribs s" for t
  have inner: "I (fold (\<lambda>(nbr_asn, rel) s. if rel = rel0
                   then send_route_to_neighbor asn nbr_asn route rel s else s) nbrs t)"
    if "(pfx, route) \<in> set rib" and "I t" for pfx route t nbrs
  proof (rule fold_inv [where I = I])
    show "I t" by fact
  next
    fix x u assume u: "I u"
    then have rb: "map_of (ribs u) asn = Some rib" using Some by (simp add: I_def)
    have "run_step anns u (send_route_to_neighbor asn (fst x) route (snd x) u)"
      using rb that(1) by (rule run_step.send)
    with send_route_frame [of u asn "fst x" route "snd x"]
    have "advance anns u (send_route_to_neighbor asn (fst x) route (snd x) u)"
      by (simp add: advance_def run_steps_def)
    with u send_route_frame [of u asn "fst x" route "snd x"]
    show "I ((case x of (nbr_asn, rel) \<Rightarrow> \<lambda>s. if rel = rel0
              then send_route_to_neighbor asn nbr_asn route rel s else s) u)"
      by (cases x) (auto simp: I_def intro: advance_trans)
  qed
  have "I (fold (\<lambda>(pfx, route). fold (\<lambda>(nbr_asn, rel) s. if rel = rel0
                   then send_route_to_neighbor asn nbr_asn route rel s else s)
                 (get_neighbors (graph s) asn)) rib s)"
  proof (rule fold_inv [where I = I])
    show "I s" by (simp add: I_def advance_refl)
  next
    fix x t assume x: "x \<in> set rib" and t: "I t"
    obtain pfx route where eq: "x = (pfx, route)" by (cases x)
    from x eq have "(pfx, route) \<in> set rib" by simp
    from inner [OF this t, of "get_neighbors (graph s) asn"] eq
    show "I ((case x of (pfx, route) \<Rightarrow> fold (\<lambda>(nbr_asn, rel) s. if rel = rel0
                   then send_route_to_neighbor asn nbr_asn route rel s else s)
                 (get_neighbors (graph s) asn)) t)"
      by simp
  qed
  with Some show ?thesis by (simp add: send_all_def I_def)
qed

lemma send_rank_steps: "advance anns s (send_rank rel0 asns s)"
  unfolding send_rank_def
proof (rule fold_inv [where I = "advance anns s"])
  show "advance anns s s" by (rule advance_refl)
next
  fix x t assume "advance anns s t"
  with send_all_steps [of anns t rel0 x] show "advance anns s (send_all rel0 x t)"
    by (auto intro: advance_trans)
qed

lemma process_rank_steps:
  assumes "paths_nonempty s"
  shows "\<exists>s'. process_rank asns s = Some s' \<and> advance anns s s'"
  unfolding process_rank_def
proof (rule fold_option_inv [where I = "advance anns s"])
  show "advance anns s s" by (rule advance_refl)
next
  fix x t assume t: "advance anns s t"
  with assms have "paths_nonempty t" by (auto intro: advance_nonempty)
  from process_messages_steps [OF this, of x anns] t
  show "\<exists>s'. process_messages x t = Some s' \<and> advance anns s s'"
    by (auto intro: advance_trans)
qed

lemma phase1_rank_steps:
  assumes "paths_nonempty s"
  shows "\<exists>s'. phase1_rank rank s = Some s' \<and> advance anns s s'"
proof -
  let ?s1 = "send_rank CUSTOMER_TO_PROVIDER (rank_to_asns s ! rank) s"
  have a: "advance anns s ?s1" by (rule send_rank_steps)
  with assms have "paths_nonempty ?s1" by (auto intro: advance_nonempty)
  from process_rank_steps [OF this, of "rank_to_asns s ! (rank + 1)" anns] a show ?thesis
    by (auto simp: phase1_rank_def Let_def intro: advance_trans)
qed

lemma phase2_rank_steps:
  assumes "paths_nonempty s"
  shows "\<exists>s'. phase2_rank rank s = Some s' \<and> advance anns s s'"
proof -
  let ?s1 = "send_rank PEER_TO_PEER (rank_to_asns s ! rank) s"
  have a: "advance anns s ?s1" by (rule send_rank_steps)
  with assms have "paths_nonempty ?s1" by (auto intro: advance_nonempty)
  from process_rank_steps [OF this, of "rank_to_asns s ! rank" anns] a show ?thesis
    by (auto simp: phase2_rank_def intro: advance_trans)
qed

lemma phase3_rank_steps:
  assumes "paths_nonempty s"
  shows "\<exists>s'. phase3_rank rank s = Some s' \<and> advance anns s s'"
proof -
  let ?s1 = "send_rank PROVIDER_TO_CUSTOMER (rank_to_asns s ! rank) s"
  have a: "advance anns s ?s1" by (rule send_rank_steps)
  with assms have "paths_nonempty ?s1" by (auto intro: advance_nonempty)
  from process_rank_steps [OF this, of "rank_to_asns s ! (rank - 1)" anns] a show ?thesis
    by (auto simp: phase3_rank_def Let_def intro: advance_trans)
qed

lemma phase_fold_steps:
  assumes ne: "paths_nonempty s"
    and f: "\<And>rank t. paths_nonempty t \<Longrightarrow> \<exists>t'. f rank t = Some t' \<and> advance anns t t'"
  shows "\<exists>s'. fold_option f ranks s = Some s' \<and> advance anns s s'"
proof (rule fold_option_inv [where I = "advance anns s"])
  show "advance anns s s" by (rule advance_refl)
next
  fix x t assume t: "advance anns s t"
  with ne have "paths_nonempty t" by (auto intro: advance_nonempty)
  from f [OF this, of x] t show "\<exists>s'. f x t = Some s' \<and> advance anns s s'"
    by (auto intro: advance_trans)
qed

lemma propagate_iteration_steps:
  assumes ne: "paths_nonempty s"
  shows "\<exists>s'. propagate_iteration s = Some s' \<and> advance anns s s'"
proof -
  let ?ranks = "[0 ..< length (rank_to_asns s)]"
  from phase_fold_steps [where f = phase1_rank and anns = anns and ranks = "?ranks", OF ne phase1_rank_steps]
  obtain s1 where s1: "fold_option phase1_rank ?ranks s = Some s1" "advance anns s s1" by blast
  from s1(2) ne have ne1: "paths_nonempty s1" by (auto intro: advance_nonempty)
  from phase_fold_steps [where f = phase2_rank and anns = anns and ranks = "?ranks", OF ne1 phase2_rank_steps]
  obtain s2 where s2: "fold_option phase2_rank ?ranks s1 = Some s2" "advance anns s1 s2" by blast
  from s2(2) ne1 have ne2: "paths_nonempty s2" by (auto intro: advance_nonempty)
  from phase_fold_steps [where f = phase3_rank and anns = anns and ranks = "rev ?ranks", OF ne2 phase3_rank_steps]
  obtain s3 where s3: "fold_option phase3_rank (rev ?ranks) s2 = Some s3" "advance anns s2 s3"
    by blast
  from s1 s2 s3 show ?thesis
    by (auto simp: propagate_iteration_def Let_def intro: advance_trans)
qed

section \<open>The RIB entry count and the propagation loop\<close>

lemma length_update_ge: "length al \<le> length (AList.update k v al)"
  by (induction al) auto

lemma count_update_ge:
  "length (entry_of al k) \<le> length v \<Longrightarrow>
     sum_list (map (\<lambda>e. length (snd e)) al) \<le> sum_list (map (\<lambda>e. length (snd e)) (AList.update k v al))"
  by (induction al) (auto simp: entry_of_def)

lemma rib_store_count:
  "get_rib_count s \<le> get_rib_count (s\<lparr>ribs := rib_store asn pfx route (ribs s)\<rparr>)"
  by (simp add: get_rib_count_def rib_store_def count_update_ge length_update_ge)

lemma run_step_count: "run_step anns s t \<Longrightarrow> get_rib_count s \<le> get_rib_count t"
proof (induction rule: run_step.induct)
  case (seed origin_asn pfx flag s)
  from rib_store_count [of s origin_asn pfx] show ?case
    by (simp add: seed_announcement_def Let_def get_rib_count_def)
next
  case (flatten s s')
  then show ?case by (auto simp: flatten_graph_def Let_def get_rib_count_def split: if_splits)
next
  case (send s sender rib pfx route receiver rel)
  show ?case by (simp add: send_route_to_neighbor_def get_rib_count_def)
next
  case (receive s asn q pfx routes route s')
  from process_route_cases [OF receive.hyps(4)] rib_store_count [of s asn pfx route]
  show ?case by auto
next
  case (clear s asn)
  show ?case by (simp add: get_rib_count_def)
qed

lemma run_steps_count: "run_steps anns s t \<Longrightarrow> get_rib_count s \<le> get_rib_count t"
  unfolding run_steps_def
  by (induction rule: rtranclp_induct) (auto dest: run_step_count)

lemma iterate_n_steps:
  "paths_nonempty s \<Longrightarrow> \<exists>t. iterate_n k s = Some t \<and> advance anns s t"
proof (induction k arbitrary: s)
  case 0
  show ?case by (simp add: advance_refl)
next
  case (Suc k)
  from propagate_iteration_steps [OF Suc.prems, of anns]
  obtain s1 where s1: "propagate_iteration s = Some s1" "advance anns s s1" by blast
  from s1(2) Suc.prems have "paths_nonempty s1" by (rule advance_nonempty)
  from Suc.IH [OF this] s1 show ?case by (auto intro: advance_trans)
qed

lemma recorded_shift:
  "propagate_iteration s = Some s1 \<Longrightarrow>
     recorded_total (get_rib_count s1) s1 j = recorded_total prev s (Suc j)"
  by (cases j) simp_all

lemma stable_within_first:
  "propagate_iteration s = Some s1 \<Longrightarrow> get_rib_count s1 = prev \<Longrightarrow> 1 \<le> n \<Longrightarrow>
     stable_within n prev s"
  unfolding stable_within_def by (rule exI [of _ 1]) simp

lemma stable_within_shift:
  assumes s1: "propagate_iteration s = Some s1" and ne: "get_rib_count s1 \<noteq> prev"
  shows "stable_within (Suc n) prev s \<longleftrightarrow> stable_within n (get_rib_count s1) s1"
proof
  have shift: "recorded_total (get_rib_count s1) s1 j = recorded_total prev s (Suc j)" for j
    using s1 by (rule recorded_shift)
  {
    assume "stable_within n (get_rib_count s1) s1"
    then obtain j where j: "1 \<le> j" "j \<le> n"
      "recorded_total (get_rib_count s1) s1 j = recorded_total (get_rib_count s1) s1 (j - 1)"
      unfolding stable_within_def by blast
    from j(1) obtain j' where j': "j = Suc j'" by (cases j) auto
    from j(3) have "recorded_total (get_rib_count s1) s1 (Suc j')
        = recorded_total (get_rib_count s1) s1 j'"
      by (simp only: j' diff_Suc_1)
    then have "recorded_total prev s (Suc (Suc j')) = recorded_total prev s (Suc j')"
      by (simp only: shift)
    then have "recorded_total prev s (Suc j) = recorded_total prev s (Suc j - 1)"
      by (simp only: j' diff_Suc_1)
    moreover from j(1,2) have "1 \<le> Suc j \<and> Suc j \<le> Suc n" by simp
    ultimately show "stable_within (Suc n) prev s" unfolding stable_within_def by blast
  }
  {
    assume "stable_within (Suc n) prev s"
    then obtain j where j: "1 \<le> j" "j \<le> Suc n"
      "recorded_total prev s j = recorded_total prev s (j - 1)"
      unfolding stable_within_def by blast
    from j(3) s1 ne have "j \<noteq> 1" by auto
    with j(1) obtain j' where j': "j = Suc j'" "1 \<le> j'" by (cases j) auto
    from j'(2) have suc: "Suc (j' - 1) = j'" by simp
    from j(3) have "recorded_total prev s (Suc j') = recorded_total prev s (Suc (j' - 1))"
      by (simp only: j' diff_Suc_1 suc)
    then have "recorded_total (get_rib_count s1) s1 j'
        = recorded_total (get_rib_count s1) s1 (j' - 1)"
      by (simp only: shift)
    moreover from j(2) j' have "j' \<le> n" by simp
    ultimately show "stable_within n (get_rib_count s1) s1"
      unfolding stable_within_def using j'(2) by blast
  }
qed

lemma stable_within_zero: "\<not> stable_within 0 prev s"
  by (simp add: stable_within_def)

lemma propagate_loop_char:
  assumes "paths_nonempty s" and "i < 20"
  shows "\<exists>s'. propagate_loop i prev s = Some (stable_within (20 - i) prev s, s')"
  using assms
proof (induction i prev s rule: propagate_loop.induct)
  case (1 iteration prev s)
  from propagate_iteration_steps [OF "1.prems"(1), of "[]"]
  obtain s1 where s1: "propagate_iteration s = Some s1" "advance [] s s1" by blast
  from s1(2) "1.prems"(1) have ne1: "paths_nonempty s1" by (rule advance_nonempty)
  show ?case
  proof (cases "get_rib_count s1 = prev")
    case True
    from stable_within_first [OF s1(1) True, of "20 - iteration"] "1.prems"(2)
    have "stable_within (20 - iteration) prev s" by simp
    with True s1(1) show ?thesis
      by (subst propagate_loop.simps) simp
  next
    case False
    from "1.prems"(2) obtain n where n: "20 - iteration = Suc n" by (cases "20 - iteration") auto
    note sh = stable_within_shift [OF s1(1) False, of n, folded n]
    show ?thesis
    proof (cases "iteration + 1 \<ge> 20")
      case True
      with n have "n = 0" by simp
      with sh stable_within_zero have "\<not> stable_within (20 - iteration) prev s" by simp
      with True False s1(1) show ?thesis
        by (subst propagate_loop.simps) simp
    next
      case lt: False
      then have lt': "iteration + 1 < 20" by simp
      from n have n': "20 - (iteration + 1) = n" by simp
      from "1.IH" [OF s1(1) False lt ne1 lt'] n' sh
      obtain s' where "propagate_loop (iteration + 1) (get_rib_count s1) s1
          = Some (stable_within (20 - iteration) prev s, s')"
        by auto
      with s1(1) False lt show ?thesis
        by (subst propagate_loop.simps) simp
    qed
  qed
qed

lemma seed_rows_steps: "set rows \<subseteq> set anns \<Longrightarrow> run_steps anns s (seed_rows rows s)"
  unfolding seed_rows_def
proof (induction rows arbitrary: s)
  case Nil
  show ?case by (simp add: run_steps_refl)
next
  case (Cons row rows)
  obtain a p f where row: "row = (a, p, f)" by (cases row)
  with Cons.prems have "run_step anns s (seed_announcement a p f s)"
    by (auto intro: run_step.seed)
  then have "run_steps anns s (seed_announcement a p f s)" by (simp add: run_steps_def)
  moreover from Cons.prems have "set rows \<subseteq> set anns" by simp
  from Cons.IH [OF this, of "seed_announcement a p f s"]
  have "run_steps anns (seed_announcement a p f s)
     (fold (\<lambda>(origin_asn, pfx, flag). seed_announcement origin_asn pfx flag) rows
        (seed_announcement a p f s))" .
  ultimately show ?case using row by (auto intro: run_steps_trans)
qed

lemma seed_rows_reachable: "reachable anns g rov (seed_rows anns (start_state g rov))"
  unfolding reachable_def by (rule seed_rows_steps) simp

lemma propagate_loop_steps:
  "paths_nonempty s \<Longrightarrow> propagate_loop i prev s = Some (b, s') \<Longrightarrow> run_steps anns s s'"
proof (induction i prev s rule: propagate_loop.induct)
  case (1 iteration prev s)
  from propagate_iteration_steps [OF "1.prems"(1), of anns]
  obtain s1 where s1: "propagate_iteration s = Some s1" "advance anns s s1" by blast
  from s1(2) "1.prems"(1) have ne1: "paths_nonempty s1" by (rule advance_nonempty)
  from s1(2) have st: "run_steps anns s s1" by (simp add: advance_def)
  show ?case
  proof (cases "get_rib_count s1 = prev \<or> iteration + 1 \<ge> 20")
    case True
    with "1.prems"(2) s1(1) have "s' = s1"
      by (subst (asm) propagate_loop.simps) (auto split: if_splits)
    with st show ?thesis by simp
  next
    case False
    with "1.prems"(2) s1(1)
    have "propagate_loop (iteration + 1) (get_rib_count s1) s1 = Some (b, s')"
      by (subst (asm) propagate_loop.simps) (auto split: if_splits)
    from "1.IH" [OF s1(1) _ _ ne1 this] False have "run_steps anns s1 s'" by simp
    with st show ?thesis by (rule run_steps_trans)
  qed
qed

lemma propagate_steps:
  assumes "paths_nonempty s" and "propagate s = Some (b, s')"
  shows "run_steps anns s s'"
proof -
  from assms(2) obtain s0 where s0: "flatten_graph s = Some s0"
    "propagate_loop 0 0 s0 = Some (b, s')"
    by (auto simp: propagate_def split: option.splits)
  from s0(1) have "run_step anns s s0" by (rule run_step.flatten)
  then have st: "run_steps anns s s0" by (simp add: run_steps_def)
  from st assms(1) have "paths_nonempty s0" by (rule paths_nonempty_steps)
  from propagate_loop_steps [OF this s0(2)] st show ?thesis by (auto intro: run_steps_trans)
qed

lemma propagate_reachable:
  "reachable anns g rov s \<Longrightarrow> propagate s = Some (b, s') \<Longrightarrow> reachable anns g rov s'"
  using propagate_steps [OF paths_nonempty_reachable, of anns g rov s b s' anns]
  by (auto simp: reachable_def intro: run_steps_trans)

lemma rib_lookup_store [simp]:
  "rib_lookup (s\<lparr>ribs := rib_store asn pfx route (ribs s)\<rparr>) asn pfx = Some route"
  by (simp add: rib_lookup_def rib_store_def update_conv')

section \<open>Correctness of the rank index\<close>

lemma mem_provs: "p \<in> set (provs g c) \<longleftrightarrow> (p, CUSTOMER_TO_PROVIDER) \<in> set (get_neighbors g c)"
  by (force simp: provs_def)

lemma mem_custs: "c \<in> set (custs g p) \<longleftrightarrow> (c, PROVIDER_TO_CUSTOMER) \<in> set (get_neighbors g p)"
  by (force simp: custs_def)

lemma get_neighbors_add:
  "get_neighbors (add_relationship a b rel g) x =
     get_neighbors g x @ (if x = a then [(b, rel)] else [])
       @ (if x = b then [(a, reverse_rel rel)] else [])"
  by (simp add: get_neighbors_def add_relationship_def adj_push_def update_conv'
      split: option.splits)

lemma count_list_map_filter:
  "count_list (map fst (filter (\<lambda>nb. snd nb = r) nbrs)) x = count_list nbrs (x, r)"
  by (induction nbrs) auto

lemma set_insert_asn: "set (insert_asn a asns) = insert a (set asns)"
  by (auto simp: insert_asn_def)

lemma get_neighbors_empty: "get_neighbors empty_graph x = []"
  by (simp add: get_neighbors_def empty_graph_def)

lemma wf_graph_empty: "wf_graph empty_graph"
  by (simp add: wf_graph_def empty_graph_def provs_def custs_def get_neighbors_def)

lemma wf_graph_add:
  assumes "wf_graph g"
  shows "wf_graph (add_relationship a b rel g)"
proof -
  have all: "set (all_asns (add_relationship a b rel g)) = insert a (insert b (set (all_asns g)))"
    by (auto simp: add_relationship_def set_insert_asn)
  have sym: "count_list (provs (add_relationship a b rel g) c) p
      = count_list (custs (add_relationship a b rel g) p) c" for c p
    using assms
    by (cases rel)
       (auto simp: wf_graph_def provs_def custs_def get_neighbors_add reverse_rel_def)
  have closed: "x \<in> set (all_asns (add_relationship a b rel g)) \<and>
       fst nb \<in> set (all_asns (add_relationship a b rel g))"
    if "nb \<in> set (get_neighbors (add_relationship a b rel g) x)" for x nb
  proof -
    from that consider "nb \<in> set (get_neighbors g x)" | "x = a" "nb = (b, rel)"
      | "x = b" "nb = (a, reverse_rel rel)"
      by (auto simp: get_neighbors_add split: if_splits)
    then show ?thesis
    proof cases
      case 1
      with assms have "x \<in> set (all_asns g) \<and> fst nb \<in> set (all_asns g)"
        unfolding wf_graph_def by blast
      then show ?thesis unfolding all by simp
    next
      case 2
      then show ?thesis unfolding all by simp
    next
      case 3
      then show ?thesis unfolding all by simp
    qed
  qed
  from sym closed show ?thesis unfolding wf_graph_def by blast
qed

lemma wf_graph_insert_asn:
  assumes "wf_graph g"
  shows "wf_graph (g\<lparr>all_asns := insert_asn a (all_asns g)\<rparr>)"
  using assms
  by (auto simp: wf_graph_def provs_def custs_def get_neighbors_def set_insert_asn)

lemma cc_get_add: "cc_get (cc_add k d cc) x = (if x = k then cc_get cc k + d else cc_get cc x)"
  by (simp add: cc_get_def cc_add_def update_conv')

lemma cc_get_update: "cc_get (AList.update k v cc) x = (if x = k then v else cc_get cc x)"
  by (simp add: cc_get_def update_conv')

lemma keys_cc_add: "k \<in> fst ` set cc \<Longrightarrow> fst ` set (cc_add k d cc) = fst ` set cc"
  by (auto simp: cc_add_def dom_update)

lemma distinct_cc_add: "distinct (map fst cc) \<Longrightarrow> distinct (map fst (cc_add k d cc))"
  by (simp add: cc_add_def distinct_update)

lemma count_fold:
  "cc_get (fold (\<lambda>neighbor cc. if snd neighbor = PROVIDER_TO_CUSTOMER then cc_add asn 1 cc else cc)
             nbrs cc) x
     = (if x = asn
        then cc_get cc asn + int (length (filter (\<lambda>nb. snd nb = PROVIDER_TO_CUSTOMER) nbrs))
        else cc_get cc x)"
  by (induction nbrs arbitrary: cc) (auto simp: cc_get_add)

lemma count_fold_keys:
  "asn \<in> fst ` set cc \<Longrightarrow>
   fst ` set (fold (\<lambda>neighbor cc. if snd neighbor = PROVIDER_TO_CUSTOMER then cc_add asn 1 cc else cc)
             nbrs cc) = fst ` set cc"
  by (induction nbrs arbitrary: cc) (auto simp: keys_cc_add)

lemma count_fold_distinct:
  "distinct (map fst cc) \<Longrightarrow>
   distinct (map fst (fold (\<lambda>neighbor cc. if snd neighbor = PROVIDER_TO_CUSTOMER
                                           then cc_add asn 1 cc else cc) nbrs cc))"
  by (induction nbrs arbitrary: cc) (auto simp: distinct_cc_add)

lemma count_asn_get:
  "cc_get (count_asn g asn cc) x = (if x = asn then int (length (custs g asn)) else cc_get cc x)"
  by (simp add: count_asn_def count_fold cc_get_update custs_def)

lemma count_asn_keys: "fst ` set (count_asn g asn cc) = insert asn (fst ` set cc)"
  unfolding count_asn_def
  by (subst count_fold_keys) (auto simp: dom_update)

lemma count_asn_distinct: "distinct (map fst cc) \<Longrightarrow> distinct (map fst (count_asn g asn cc))"
  unfolding count_asn_def by (rule count_fold_distinct) (simp add: distinct_update)

lemma fold_count_asn:
  "distinct (map fst cc) \<Longrightarrow>
   distinct (map fst (fold (count_asn g) asns cc)) \<and>
   fst ` set (fold (count_asn g) asns cc) = set asns \<union> fst ` set cc \<and>
   (\<forall>x. cc_get (fold (count_asn g) asns cc) x
        = (if x \<in> set asns then int (length (custs g x)) else cc_get cc x))"
proof (induction asns arbitrary: cc rule: rev_induct)
  case Nil
  then show ?case by simp
next
  case (snoc a asns)
  from snoc.IH [OF snoc.prems] show ?case
    by (auto simp: count_asn_get count_asn_keys count_asn_distinct)
qed

lemma initial_customer_count_props:
  "distinct (map fst (initial_customer_count g))"
  "fst ` set (initial_customer_count g) = set (all_asns g)"
  "x \<in> set (all_asns g) \<Longrightarrow> cc_get (initial_customer_count g) x = int (length (custs g x))"
  using fold_count_asn [of "[]" g "all_asns g"] by (simp_all add: initial_customer_count_def)

lemma initial_queue_props:
  assumes "distinct (map fst cc)"
  shows "distinct (initial_queue cc)"
    and "set (initial_queue cc) = {a \<in> fst ` set cc. cc_get cc a = 0}"
proof -
  show "distinct (initial_queue cc)"
    unfolding initial_queue_def using assms by (rule distinct_map_filter)
  have "(a \<in> set (initial_queue cc)) = (a \<in> fst ` set cc \<and> cc_get cc a = 0)" for a
  proof
    assume "a \<in> set (initial_queue cc)"
    then have m: "(a, 0) \<in> set cc" by (auto simp: initial_queue_def)
    with assms have "map_of cc a = Some 0" by simp
    with m show "a \<in> fst ` set cc \<and> cc_get cc a = 0" by (force simp: cc_get_def)
  next
    assume a: "a \<in> fst ` set cc \<and> cc_get cc a = 0"
    then obtain v where v: "(a, v) \<in> set cc" by auto
    with assms have "map_of cc a = Some v" by simp
    with a have "v = 0" by (simp add: cc_get_def)
    with v show "a \<in> set (initial_queue cc)" by (force simp: initial_queue_def)
  qed
  then show "set (initial_queue cc) = {a \<in> fst ` set cc. cc_get cc a = 0}" by blast
qed

lemma visit_fold:
  assumes "\<forall>p \<in> set (c2p_targets nbrs). int (count_list (c2p_targets nbrs) p) \<le> cc_get (customer_count st) p"
  shows "\<exists>pushed.
           zero_customer_queue (fold visit_neighbor nbrs st) = zero_customer_queue st @ pushed \<and>
           distinct pushed \<and>
           set pushed = {p \<in> set (c2p_targets nbrs).
                           cc_get (customer_count st) p = int (count_list (c2p_targets nbrs) p)} \<and>
           (\<forall>x. cc_get (customer_count (fold visit_neighbor nbrs st)) x
                  = cc_get (customer_count st) x - int (count_list (c2p_targets nbrs) x)) \<and>
           fl_asn_to_rank (fold visit_neighbor nbrs st) = fl_asn_to_rank st \<and>
           fl_rank_to_asns (fold visit_neighbor nbrs st) = fl_rank_to_asns st"
  using assms
proof (induction nbrs arbitrary: st)
  case Nil
  show ?case by (simp add: c2p_targets_def)
next
  case (Cons nb nbrs)
  show ?case
  proof (cases "snd nb = CUSTOMER_TO_PROVIDER")
    case False
    then have t: "c2p_targets (nb # nbrs) = c2p_targets nbrs" by (simp add: c2p_targets_def)
    from False have v: "visit_neighbor nb st = st" by (simp add: visit_neighbor_def)
    from Cons.IH [of st] Cons.prems show ?thesis unfolding t by (simp add: v)
  next
    case True
    let ?p = "fst nb"
    let ?T = "c2p_targets nbrs"
    let ?cc = "customer_count st"
    let ?st1 = "visit_neighbor nb st"
    from True have t: "c2p_targets (nb # nbrs) = ?p # ?T" by (simp add: c2p_targets_def)
    from True have cc1: "cc_get (customer_count ?st1) x
        = (if x = ?p then cc_get ?cc ?p - 1 else cc_get ?cc x)" for x
      by (simp add: visit_neighbor_def Let_def cc_get_add)
    from True have q1: "zero_customer_queue ?st1
        = zero_customer_queue st @ (if cc_get ?cc ?p = 1 then [?p] else [])"
      by (simp add: visit_neighbor_def Let_def cc_get_add)
    from True have f1: "fl_asn_to_rank ?st1 = fl_asn_to_rank st"
      "fl_rank_to_asns ?st1 = fl_rank_to_asns st"
      by (simp_all add: visit_neighbor_def Let_def)
    from Cons.prems have pre: "\<forall>p \<in> set (?p # ?T). int (count_list (?p # ?T) p) \<le> cc_get ?cc p"
      unfolding t .
    have "\<forall>p \<in> set ?T. int (count_list ?T p) \<le> cc_get (customer_count ?st1) p"
      using pre by (auto simp: cc1)
    from Cons.IH [OF this] obtain pushed1 where IH:
      "zero_customer_queue (fold visit_neighbor nbrs ?st1) = zero_customer_queue ?st1 @ pushed1"
      "distinct pushed1"
      "set pushed1 = {p \<in> set ?T. cc_get (customer_count ?st1) p = int (count_list ?T p)}"
      "\<forall>x. cc_get (customer_count (fold visit_neighbor nbrs ?st1)) x
          = cc_get (customer_count ?st1) x - int (count_list ?T x)"
      "fl_asn_to_rank (fold visit_neighbor nbrs ?st1) = fl_asn_to_rank ?st1"
      "fl_rank_to_asns (fold visit_neighbor nbrs ?st1) = fl_rank_to_asns ?st1"
      by blast
    let ?pushed = "(if cc_get ?cc ?p = 1 then [?p] else []) @ pushed1"
    from pre have p_le: "1 + int (count_list ?T ?p) \<le> cc_get ?cc ?p" by simp
    have notin: "?p \<notin> set ?T" if "cc_get ?cc ?p = 1"
    proof -
      from that p_le have "count_list ?T ?p = 0" by simp
      then show ?thesis by (simp add: count_list_0_iff)
    qed
    have d: "distinct ?pushed"
      using IH(2,3) notin by auto
    have s: "set ?pushed = {p \<in> set (?p # ?T). cc_get ?cc p = int (count_list (?p # ?T) p)}"
    proof -
      have "(x \<in> set ?pushed) = (x \<in> set (?p # ?T) \<and> cc_get ?cc x = int (count_list (?p # ?T) x))"
        for x
      proof (cases "x = ?p")
        case False
        then show ?thesis by (auto simp: IH(3) cc1)
      next
        case True
        show ?thesis
        proof (cases "?p \<in> set ?T")
          case False
          then have "count_list ?T ?p = 0" by (simp add: count_list_0_iff)
          with True False show ?thesis by (auto simp: IH(3) cc1)
        next
          case in_T: True
          then have "count_list ?T ?p \<noteq> 0" by (simp add: count_list_0_iff)
          then have "count_list ?T ?p > 0" by simp
          with True in_T p_le show ?thesis by (auto simp: IH(3) cc1)
        qed
      qed
      then show ?thesis by blast
    qed
    have c: "\<forall>x. cc_get (customer_count (fold visit_neighbor nbrs ?st1)) x
          = cc_get ?cc x - int (count_list (?p # ?T) x)"
      using IH(4) by (auto simp: cc1)
    from IH(1) q1 have "zero_customer_queue (fold visit_neighbor (nb # nbrs) st)
        = zero_customer_queue st @ ?pushed" by simp
    with d s c IH(5,6) f1 show ?thesis unfolding t
      by (intro exI [of _ ?pushed]) simp
  qed
qed

lemma undone_upd:
  "a2r a = None \<Longrightarrow>
     length (filter (\<lambda>c. (a2r(a \<mapsto> r)) c = None) l) + count_list l a
       = length (filter (\<lambda>c. a2r c = None) l)"
  by (induction l) auto

lemma ranked_ok_mono:
  "ranked_ok g a2r x \<rho> \<Longrightarrow> a2r a = None \<Longrightarrow> ranked_ok g (a2r(a \<mapsto> r)) x \<rho>"
  unfolding ranked_ok_def by (auto; metis option.distinct(1))

lemma count_custs_pos: "count_list (custs g x) a > 0 \<longleftrightarrow> a \<in> set (custs g x)"
  using count_list_0_iff [of "custs g x" a] by auto

lemma count_provs_pos: "count_list (provs g x) a > 0 \<longleftrightarrow> a \<in> set (provs g x)"
  using count_list_0_iff [of "provs g x" a] by auto

lemma wf_provs:
  assumes "wf_graph g" and "p \<in> set (provs g x)"
  shows "p \<in> set (all_asns g) \<and> x \<in> set (all_asns g)"
proof -
  from assms(2) obtain nb where "nb \<in> set (get_neighbors g x)" "fst nb = p"
    unfolding provs_def by auto
  with assms(1) show ?thesis unfolding wf_graph_def by blast
qed

lemma wf_custs:
  assumes "wf_graph g" and "c \<in> set (custs g x)"
  shows "c \<in> set (all_asns g) \<and> x \<in> set (all_asns g)"
proof -
  from assms(2) obtain nb where "nb \<in> set (get_neighbors g x)" "fst nb = c"
    unfolding custs_def by auto
  with assms(1) show ?thesis unfolding wf_graph_def by blast
qed

lemma drain_one_inv:
  assumes wf: "wf_graph g" and irr: "\<forall>a. a \<notin> set (provs g a)"
    and inv: "flat_inv g r (Suc k) st"
  shows "flat_inv g r k (drain_one g r st)"
proof -
  let ?V = "set (all_asns g)"
  let ?q = "zero_customer_queue st"
  let ?cc = "customer_count st"
  let ?a2r = "fl_asn_to_rank st"
  let ?r2a = "fl_rank_to_asns st"
  note I = inv [unfolded flat_inv_def]
  from I have len: "Suc k \<le> length ?q" by blast
  then obtain a rest where q: "?q = a # rest" by (cases ?q) auto
  from I have "distinct ?q" by blast
  then have dq: "distinct (a # rest)" unfolding q .
  from I have "set ?q \<subseteq> ?V" by blast
  then have qV: "set (a # rest) \<subseteq> ?V" unfolding q .
  from I have dom: "dom ?a2r \<subseteq> ?V" by blast
  from I have "\<forall>x \<in> set ?q. ?a2r x = None" by blast
  then have qNone: "\<forall>x \<in> set (a # rest). ?a2r x = None" unfolding q .
  from I have ccV: "\<forall>x \<in> ?V. cc_get ?cc x = int (undone g ?a2r x)" by blast
  from I have "\<forall>x \<in> ?V. ?a2r x = None \<longrightarrow> cc_get ?cc x = 0 \<longrightarrow> x \<in> set ?q" by blast
  then have inq: "\<forall>x \<in> ?V. ?a2r x = None \<longrightarrow> cc_get ?cc x = 0 \<longrightarrow> x \<in> set (a # rest)"
    unfolding q .
  from I have "\<forall>x \<in> set ?q. cc_get ?cc x = 0" by blast
  then have qzero: "\<forall>x \<in> set (a # rest). cc_get ?cc x = 0" unfolding q .
  from I have ranked: "\<forall>x \<rho>. ?a2r x = Some \<rho> \<longrightarrow> \<rho> \<le> r \<and> ranked_ok g ?a2r x \<rho>" by blast
  from I have "\<forall>x \<in> set (take (Suc k) ?q). ranked_ok g ?a2r x r" by blast
  then have cur: "\<forall>x \<in> set (take (Suc k) (a # rest)). ranked_ok g ?a2r x r" unfolding q .
  from I have "\<forall>x \<in> set (drop (Suc k) ?q). \<exists>c \<in> set (custs g x). ?a2r c = Some r" by blast
  then have new: "\<forall>x \<in> set (drop (Suc k) (a # rest)). \<exists>c \<in> set (custs g x). ?a2r c = Some r"
    unfolding q .
  from I have lr: "length ?r2a = Suc r" by blast
  from I have r2a: "\<forall>x \<rho>. (?a2r x = Some \<rho>) = (\<rho> < length ?r2a \<and> x \<in> set (?r2a ! \<rho>))"
    by blast
  from qV have aV: "a \<in> ?V" by simp
  from qNone have aNone: "?a2r a = None" by simp
  from wf have sym: "count_list (provs g c) p = count_list (custs g p) c" for c p
    unfolding wf_graph_def by blast
  have closed: "p \<in> ?V" if "p \<in> set (provs g x)" for p x
    using wf_provs [OF wf that] by simp
  let ?T = "provs g a"
  let ?a2r' = "?a2r(a \<mapsto> r)"
  let ?r2a' = "?r2a[r := ?r2a ! r @ [a]]"
  let ?st1 = "st\<lparr>zero_customer_queue := rest, fl_asn_to_rank := ?a2r', fl_rank_to_asns := ?r2a'\<rparr>"
  have d1: "drain_one g r st = fold visit_neighbor (get_neighbors g a) ?st1"
    using q by (simp add: drain_one_def)
  have T: "c2p_targets (get_neighbors g a) = ?T" by (simp add: c2p_targets_def provs_def)
  have a_cust: "a \<in> set (custs g p)" if "p \<in> set ?T" for p
    using that sym [of a p] count_provs_pos [of g a p] count_custs_pos [of g p a] by simp
  have und: "undone g ?a2r' x + count_list ?T x = undone g ?a2r x" for x
    unfolding undone_def sym [of a x] using aNone by (rule undone_upd)
  have T_pos: "int (count_list ?T p) \<le> cc_get ?cc p \<and> 0 < cc_get ?cc p" if "p \<in> set ?T" for p
  proof -
    from that closed have "p \<in> ?V" by blast
    with ccV have "cc_get ?cc p = int (undone g ?a2r p)" by blast
    moreover from that have "0 < count_list ?T p" by (simp add: count_provs_pos)
    ultimately show ?thesis using und [of p] by simp
  qed
  have T_ne: "p \<noteq> a" if "p \<in> set ?T" for p using that irr by auto
  have T_None: "?a2r p = None" if "p \<in> set ?T" for p
  proof (cases "?a2r p")
    case None
    then show ?thesis .
  next
    case (Some \<rho>)
    with ranked have "ranked_ok g ?a2r p \<rho>" by blast
    with a_cust [OF that] aNone show ?thesis unfolding ranked_ok_def by force
  qed
  have "\<forall>p \<in> set (c2p_targets (get_neighbors g a)).
      int (count_list (c2p_targets (get_neighbors g a)) p) \<le> cc_get (customer_count ?st1) p"
    unfolding T using T_pos by simp
  from visit_fold [OF this, folded d1, unfolded T] obtain pushed where
    Q': "zero_customer_queue (drain_one g r st) = rest @ pushed"
    and dp: "distinct pushed"
    and sp: "set pushed = {p \<in> set ?T. cc_get ?cc p = int (count_list ?T p)}"
    and CC': "\<And>x. cc_get (customer_count (drain_one g r st)) x = cc_get ?cc x - int (count_list ?T x)"
    and A': "fl_asn_to_rank (drain_one g r st) = ?a2r'"
    and R': "fl_rank_to_asns (drain_one g r st) = ?r2a'"
    by auto
  have notT: "x \<notin> set ?T" if "x \<in> set (a # rest)" for x
    using that qzero T_pos [of x] by auto
  have ccT: "cc_get (customer_count (drain_one g r st)) x = cc_get ?cc x" if "x \<notin> set ?T" for x
    using that by (simp add: CC')
  have c1: "k \<le> length (rest @ pushed)" using len q by simp
  have c2: "distinct (rest @ pushed)"
    using dq dp sp notT by auto
  have c3: "set (rest @ pushed) \<subseteq> ?V"
    using qV sp closed by auto
  have c4: "dom ?a2r' \<subseteq> ?V" using dom aV by auto
  have c5: "\<forall>x \<in> set (rest @ pushed). ?a2r' x = None"
    using qNone dq sp T_ne T_None by auto
  have c6: "\<forall>x \<in> ?V. cc_get (customer_count (drain_one g r st)) x = int (undone g ?a2r' x)"
  proof
    fix x assume "x \<in> ?V"
    with ccV have "cc_get ?cc x = int (undone g ?a2r x)" by blast
    with und [of x] show "cc_get (customer_count (drain_one g r st)) x = int (undone g ?a2r' x)"
      by (simp add: CC')
  qed
  have c7: "\<forall>x \<in> ?V. ?a2r' x = None \<longrightarrow> cc_get (customer_count (drain_one g r st)) x = 0 \<longrightarrow>
      x \<in> set (rest @ pushed)"
  proof (intro ballI impI)
    fix x assume x: "x \<in> ?V" "?a2r' x = None" "cc_get (customer_count (drain_one g r st)) x = 0"
    from x(2) have xa: "x \<noteq> a" and xN: "?a2r x = None" by (auto split: if_splits)
    show "x \<in> set (rest @ pushed)"
    proof (cases "x \<in> set ?T")
      case True
      with x(3) have "x \<in> set pushed" by (simp add: sp CC')
      then show ?thesis by simp
    next
      case False
      with x(3) have "cc_get ?cc x = 0" by (simp add: ccT)
      with inq x(1) xN have "x \<in> set (a # rest)" by blast
      with xa show ?thesis by simp
    qed
  qed
  have c8: "\<forall>x \<in> set (rest @ pushed). cc_get (customer_count (drain_one g r st)) x = 0"
  proof
    fix x assume "x \<in> set (rest @ pushed)"
    then consider "x \<in> set rest" | "x \<in> set pushed" by auto
    then show "cc_get (customer_count (drain_one g r st)) x = 0"
    proof cases
      case 1
      with notT [of x] qzero show ?thesis by (simp add: ccT)
    next
      case 2
      then show ?thesis by (simp add: sp CC')
    qed
  qed
  have a_ok: "ranked_ok g ?a2r a r" using cur by simp
  have c9: "\<forall>x \<rho>. ?a2r' x = Some \<rho> \<longrightarrow> \<rho> \<le> r \<and> ranked_ok g ?a2r' x \<rho>"
  proof (intro allI impI)
    fix x \<rho> assume x: "?a2r' x = Some \<rho>"
    show "\<rho> \<le> r \<and> ranked_ok g ?a2r' x \<rho>"
    proof (cases "x = a")
      case True
      with x have "\<rho> = r" by simp
      with True ranked_ok_mono [OF a_ok aNone] show ?thesis by simp
    next
      case False
      with x have "?a2r x = Some \<rho>" by simp
      with ranked have *: "\<rho> \<le> r" "ranked_ok g ?a2r x \<rho>" by blast+
      from ranked_ok_mono [OF *(2) aNone] *(1) show ?thesis by blast
    qed
  qed
  from len q have kr: "k \<le> length rest" by simp
  have c10: "\<forall>x \<in> set (take k (rest @ pushed)). ranked_ok g ?a2r' x r"
  proof
    fix x assume "x \<in> set (take k (rest @ pushed))"
    with kr have "x \<in> set (take k rest)" by simp
    then have "x \<in> set (take (Suc k) (a # rest))" by simp
    with cur have "ranked_ok g ?a2r x r" by blast
    then show "ranked_ok g ?a2r' x r" using aNone by (rule ranked_ok_mono)
  qed
  have c11: "\<forall>x \<in> set (drop k (rest @ pushed)). \<exists>c \<in> set (custs g x). ?a2r' c = Some r"
  proof
    fix x assume "x \<in> set (drop k (rest @ pushed))"
    with kr have "x \<in> set (drop k rest) \<or> x \<in> set pushed" by auto
    then show "\<exists>c \<in> set (custs g x). ?a2r' c = Some r"
    proof
      assume "x \<in> set (drop k rest)"
      then have "x \<in> set (drop (Suc k) (a # rest))" by simp
      with new obtain c where c: "c \<in> set (custs g x)" "?a2r c = Some r" by blast
      with aNone have "c \<noteq> a" by auto
      with c show ?thesis by auto
    next
      assume "x \<in> set pushed"
      then have "x \<in> set ?T" by (simp add: sp)
      from a_cust [OF this] show ?thesis by auto
    qed
  qed
  have c12: "length ?r2a' = Suc r" using lr by simp
  have c13: "\<forall>x \<rho>. (?a2r' x = Some \<rho>) = (\<rho> < length ?r2a' \<and> x \<in> set (?r2a' ! \<rho>))"
  proof (intro allI)
    fix x \<rho>
    show "(?a2r' x = Some \<rho>) = (\<rho> < length ?r2a' \<and> x \<in> set (?r2a' ! \<rho>))"
    proof (cases "\<rho> = r")
      case True
      with lr r2a [rule_format, of x r] show ?thesis by auto
    next
      case False
      with r2a [rule_format, of x \<rho>] aNone show ?thesis by auto
    qed
  qed
  from c1 c2 c3 c4 c5 c6 c7 c8 c9 c10 c11 c12 c13 show ?thesis
    unfolding flat_inv_def Q' A' R' by blast
qed

lemma drain_inv:
  assumes wf: "wf_graph g" and irr: "\<forall>a. a \<notin> set (provs g a)"
  shows "flat_inv g r k st \<Longrightarrow> flat_inv g r 0 (drain g r k st)"
proof (induction k arbitrary: st)
  case 0
  then show ?case by simp
next
  case (Suc k)
  from wf irr Suc.prems have "flat_inv g r k (drain_one g r st)" by (rule drain_one_inv)
  from Suc.IH [OF this] show ?case by simp
qed

lemma undone_zero:
  "undone g a2r a = 0 \<Longrightarrow> c \<in> set (custs g a) \<Longrightarrow> \<exists>\<rho>. a2r c = Some \<rho>"
  unfolding undone_def by (auto simp: filter_empty_conv)

lemma wave_next:
  assumes "flat_inv g r 0 st"
  shows "outer_inv g (Suc r) st"
proof -
  let ?V = "set (all_asns g)"
  let ?q = "zero_customer_queue st"
  let ?cc = "customer_count st"
  let ?a2r = "fl_asn_to_rank st"
  let ?r2a = "fl_rank_to_asns st"
  note I = assms [unfolded flat_inv_def]
  from I have qV: "set ?q \<subseteq> ?V" by blast
  from I have ccV: "\<forall>x \<in> ?V. cc_get ?cc x = int (undone g ?a2r x)" by blast
  from I have qzero: "\<forall>x \<in> set ?q. cc_get ?cc x = 0" by blast
  from I have ranked: "\<forall>x \<rho>. ?a2r x = Some \<rho> \<longrightarrow> \<rho> \<le> r \<and> ranked_ok g ?a2r x \<rho>" by blast
  from I have "\<forall>x \<in> set (drop 0 ?q). \<exists>c \<in> set (custs g x). ?a2r c = Some r" by blast
  then have new: "\<forall>x \<in> set ?q. \<exists>c \<in> set (custs g x). ?a2r c = Some r" by simp
  from I have lr: "length ?r2a = Suc r" by blast
  from I have r2a: "\<forall>x \<rho>. (?a2r x = Some \<rho>) = (\<rho> < length ?r2a \<and> x \<in> set (?r2a ! \<rho>))"
    by blast
  have c9: "\<forall>x \<rho>. ?a2r x = Some \<rho> \<longrightarrow> \<rho> \<le> Suc r \<and> ranked_ok g ?a2r x \<rho>"
    using ranked by (meson le_Suc_eq)
  have c10: "\<forall>x \<in> set (take (length ?q) ?q). ranked_ok g ?a2r x (Suc r)"
  proof
    fix x assume "x \<in> set (take (length ?q) ?q)"
    then have x: "x \<in> set ?q" by simp
    from x qV have "x \<in> ?V" by blast
    with ccV have "cc_get ?cc x = int (undone g ?a2r x)" by blast
    moreover from x qzero have "cc_get ?cc x = 0" by blast
    ultimately have u: "undone g ?a2r x = 0" by simp
    have "\<exists>\<rho>'. ?a2r c = Some \<rho>' \<and> \<rho>' < Suc r" if "c \<in> set (custs g x)" for c
    proof -
      from undone_zero [OF u that] obtain \<rho>' where "?a2r c = Some \<rho>'" ..
      with ranked show ?thesis by (auto simp: less_Suc_eq_le)
    qed
    with new x show "ranked_ok g ?a2r x (Suc r)" unfolding ranked_ok_def by simp
  qed
  have c13: "\<forall>x \<rho>. (?a2r x = Some \<rho>)
      = (\<rho> < length (?r2a @ [[]]) \<and> x \<in> set ((?r2a @ [[]]) ! \<rho>))"
  proof (intro allI)
    fix x \<rho>
    show "(?a2r x = Some \<rho>) = (\<rho> < length (?r2a @ [[]]) \<and> x \<in> set ((?r2a @ [[]]) ! \<rho>))"
    proof (cases "\<rho> < length ?r2a")
      case True
      with r2a [rule_format, of x \<rho>] show ?thesis by (simp add: nth_append)
    next
      case False
      with r2a [rule_format, of x \<rho>] show ?thesis by (auto simp: nth_append)
    qed
  qed
  from I c9 c10 c13 lr show ?thesis
    unfolding outer_inv_def flat_inv_def by simp
qed

lemma initial_outer:
  "outer_inv g 0 \<lparr>customer_count = initial_customer_count g,
      zero_customer_queue = initial_queue (initial_customer_count g),
      fl_asn_to_rank = Map.empty, fl_rank_to_asns = []\<rparr>"
proof -
  let ?cc = "initial_customer_count g"
  let ?q = "initial_queue ?cc"
  note P = initial_customer_count_props [where g = g]
  note Q = initial_queue_props [OF P(1)]
  have u: "undone g Map.empty x = length (custs g x)" for x by (simp add: undone_def)
  have z: "custs g x = []" if "x \<in> set ?q" for x
    using that P(3) [of x] by (auto simp: Q(2) P(2))
  have "\<forall>x \<in> set ?q. ranked_ok g Map.empty x 0"
    using z by (simp add: ranked_ok_def)
  with P Q u show ?thesis
    unfolding outer_inv_def flat_inv_def by (auto simp: nth_Cons')
qed

lemma flatten_loop_inv:
  "wf_graph g \<Longrightarrow> \<forall>a. a \<notin> set (provs g a) \<Longrightarrow> outer_inv g r st \<Longrightarrow>
     \<exists>r'. outer_inv g r' (flatten_loop g r st) \<and> zero_customer_queue (flatten_loop g r st) = []"
proof (induction g r st rule: flatten_loop.induct)
  case (1 g r st)
  note wf = "1.prems"(1) and irr = "1.prems"(2)
  show ?case
  proof (cases "zero_customer_queue st = []")
    case True
    with "1.prems"(3) show ?thesis by (subst (1 2) flatten_loop.simps) auto
  next
    case False
    let ?st' = "drain g r (length (zero_customer_queue st))
                  (st\<lparr>fl_rank_to_asns := fl_rank_to_asns st @ [[]]\<rparr>)"
    from "1.prems"(3) have "flat_inv g r (length (zero_customer_queue st))
        (st\<lparr>fl_rank_to_asns := fl_rank_to_asns st @ [[]]\<rparr>)"
      by (simp add: outer_inv_def)
    with wf irr have "flat_inv g r 0 ?st'" by (rule drain_inv)
    then have "outer_inv g (Suc r) ?st'" by (rule wave_next)
    from "1.IH" [OF False wf irr] this have "\<exists>r'. outer_inv g r' (flatten_loop g (r + 1) ?st') \<and>
        zero_customer_queue (flatten_loop g (r + 1) ?st') = []" by simp
    with False show ?thesis by (subst (1 2) flatten_loop.simps) simp
  qed
qed

lemma wf_sym: "wf_graph g \<Longrightarrow> p \<in> set (provs g c) \<longleftrightarrow> c \<in> set (custs g p)"
proof -
  assume "wf_graph g"
  then have "count_list (provs g c) p = count_list (custs g p) c"
    unfolding wf_graph_def by blast
  with count_provs_pos [of g c p] count_custs_pos [of g p c] show ?thesis by simp
qed

lemma acyclic_irr: "acyclic (cp g) \<Longrightarrow> \<forall>a. a \<notin> set (provs g a)"
proof
  fix a assume ac: "acyclic (cp g)"
  show "a \<notin> set (provs g a)"
  proof
    assume "a \<in> set (provs g a)"
    then have "(a, a) \<in> cp g" by (simp add: cp_def mem_provs)
    with ac show False by (auto simp: acyclic_def)
  qed
qed

lemma finite_cp: "wf_graph g \<Longrightarrow> finite (cp g)"
proof -
  assume wf: "wf_graph g"
  have "cp g \<subseteq> set (all_asns g) \<times> set (all_asns g)"
    using wf_provs [OF wf] by (auto simp: cp_def mem_provs [symmetric])
  then show ?thesis by (rule finite_subset) simp
qed

lemma flatten_ranks_inv:
  assumes "wf_graph g" and "acyclic (cp g)"
  shows "\<exists>r. outer_inv g r (flatten_ranks g) \<and> zero_customer_queue (flatten_ranks g) = []"
  unfolding flatten_ranks_def Let_def
  using assms(1) acyclic_irr [OF assms(2)] initial_outer by (rule flatten_loop_inv)

lemma all_ranked:
  assumes wf: "wf_graph g" and ac: "acyclic (cp g)"
    and inv: "outer_inv g r st" and e: "zero_customer_queue st = []"
    and a: "a \<in> set (all_asns g)"
  shows "fl_asn_to_rank st a \<noteq> None"
proof
  let ?V = "set (all_asns g)"
  let ?a2r = "fl_asn_to_rank st"
  assume n: "?a2r a = None"
  note I = inv [unfolded outer_inv_def flat_inv_def, simplified]
  from I have ccV: "\<forall>x \<in> ?V. cc_get (customer_count st) x = int (undone g ?a2r x)" by blast
  from I e have inq: "\<forall>x \<in> ?V. ?a2r x = None \<longrightarrow> cc_get (customer_count st) x \<noteq> 0" by auto
  from finite_cp [OF wf] ac have "wf (cp g)" by (rule finite_acyclic_wf)
  moreover from a n have "a \<in> {x \<in> ?V. ?a2r x = None}" by simp
  ultimately obtain z where z: "z \<in> {x \<in> ?V. ?a2r x = None}"
    and min: "\<And>y. (y, z) \<in> cp g \<Longrightarrow> y \<notin> {x \<in> ?V. ?a2r x = None}"
    by (rule wfE_min) blast
  have "?a2r c \<noteq> None" if "c \<in> set (custs g z)" for c
  proof -
    from that wf have "(c, z) \<in> cp g" by (simp add: cp_def mem_provs [symmetric] wf_sym)
    from min [OF this] wf_custs [OF wf that] show ?thesis by simp
  qed
  then have "undone g ?a2r z = 0" by (auto simp: undone_def filter_empty_conv)
  with ccV z have "cc_get (customer_count st) z = 0" by simp
  with inq z show False by simp
qed

lemma cp_chain_snoc:
  "cp_chain g xs \<Longrightarrow> (A, CUSTOMER_TO_PROVIDER) \<in> set (get_neighbors g (last xs)) \<Longrightarrow>
     cp_chain g (xs @ [A])"
  by (induction g xs rule: cp_chain.induct) simp_all

lemma chain_exists:
  assumes wf: "wf_graph g"
    and ok: "\<And>x \<rho>. a2r x = Some \<rho> \<Longrightarrow> ranked_ok g a2r x \<rho>"
  shows "a2r A = Some \<rho> \<Longrightarrow> \<exists>xs. cp_chain g xs \<and> last xs = A \<and> length xs = \<rho> + 1"
proof (induction \<rho> arbitrary: A)
  case 0
  have "cp_chain g [A] \<and> last [A] = A \<and> length [A] = 0 + 1" by simp
  then show ?case by blast
next
  case (Suc \<rho>)
  from ok [OF Suc.prems] obtain c where c: "c \<in> set (custs g A)" "a2r c = Some \<rho>"
    unfolding ranked_ok_def by auto
  from Suc.IH [OF c(2)] obtain xs where xs: "cp_chain g xs" "last xs = c" "length xs = \<rho> + 1"
    by blast
  from c(1) wf have "(A, CUSTOMER_TO_PROVIDER) \<in> set (get_neighbors g c)"
    by (simp add: mem_provs [symmetric] wf_sym)
  with xs have "cp_chain g (xs @ [A])" by (simp add: cp_chain_snoc)
  with xs show ?case by (intro exI [of _ "xs @ [A]"]) simp
qed

lemma chain_bound:
  assumes wf: "wf_graph g"
    and ok: "\<And>x \<rho>. a2r x = Some \<rho> \<Longrightarrow> ranked_ok g a2r x \<rho>"
  shows "cp_chain g xs \<Longrightarrow> a2r (last xs) = Some \<rho> \<Longrightarrow>
     \<exists>\<rho>0. a2r (hd xs) = Some \<rho>0 \<and> \<rho>0 + length xs \<le> \<rho> + 1"
proof (induction xs)
  case Nil
  then show ?case by simp
next
  case (Cons a xs)
  show ?case
  proof (cases xs)
    case Nil
    with Cons.prems show ?thesis by simp
  next
    case (Cons b rest)
    from Cons.prems(1) Cons have e: "(b, CUSTOMER_TO_PROVIDER) \<in> set (get_neighbors g a)"
      and ch: "cp_chain g xs" by simp_all
    from Cons.prems(2) Cons have l: "a2r (last xs) = Some \<rho>" by simp
    from Cons.IH [OF ch l] Cons obtain \<rho>b where b: "a2r b = Some \<rho>b"
      "\<rho>b + length xs \<le> \<rho> + 1" by auto
    from e wf have "a \<in> set (custs g b)" by (simp add: mem_provs [symmetric] wf_sym)
    with ok [OF b(1)] obtain \<rho>a where "a2r a = Some \<rho>a" "\<rho>a < \<rho>b"
      unfolding ranked_ok_def by blast
    with b(2) show ?thesis by simp
  qed
qed

lemma cp_example: "cp example_graph = {(2, 1)}"
  by (auto simp: cp_def example_graph_def get_neighbors_add get_neighbors_empty reverse_rel_def
      split: if_splits)

lemma load_line_wf: "wf_graph g \<Longrightarrow> wf_graph (load_line line g)"
  by (auto simp: load_line_def wf_graph_add split: option.splits)

lemma load_from_file_wf: "load_from_file file empty_graph = Inr g \<Longrightarrow> wf_graph g"
proof -
  have "wf_graph g0 \<Longrightarrow> wf_graph (fold load_line lines g0)" for lines g0
    by (induction lines arbitrary: g0) (simp_all add: load_line_wf)
  from this [OF wf_graph_empty] show "load_from_file file empty_graph = Inr g \<Longrightarrow> wf_graph g"
    by (auto simp: load_from_file_def split: option.splits)
qed

lemma seed_announcement_wf:
  "wf_graph (graph s) \<Longrightarrow> wf_graph (graph (seed_announcement origin_asn pfx flag s))"
  by (simp add: seed_announcement_def Let_def wf_graph_insert_asn)

text \<open>
  Claim C5. Let the graph of the simulator be one that \<open>add_relationship\<close> and seeding
  build (\<open>load_from_file\<close> and \<open>seed_announcement\<close> keep it so: lemmas
  \<open>load_from_file_wf\<close>, \<open>seed_announcement_wf\<close>), let its customer-to-provider relation
  be acyclic, and let \<open>A\<close> be one of its ASes. Then \<open>flatten_graph\<close> succeeds and gives
  \<open>A\<close> a rank \<open>r\<close>, in \<open>asn_to_rank\<close> and in \<open>rank_to_asns\<close>; \<open>r\<close> is 0 exactly when
  \<open>A\<close> has no \<^verbatim>\<open>PROVIDER_TO_CUSTOMER\<close> adjacency entry; every customer of \<open>A\<close> has a
  rank below \<open>r\<close>; some chain of customer-to-provider edges that ends in \<open>A\<close> has \<open>r\<close>
  edges, and none has more.
\<close>

theorem flatten_rank_correct:
  assumes "wf_graph (graph s)" and "acyclic (cp (graph s))" and "A \<in> set (all_asns (graph s))"
  shows "\<exists>s' r. flatten_graph s = Some s' \<and> asn_to_rank s' A = Some r \<and>
           r < length (rank_to_asns s') \<and> A \<in> set (rank_to_asns s' ! r) \<and>
           (r = 0 \<longleftrightarrow> (\<forall>nb \<in> set (get_neighbors (graph s) A). snd nb \<noteq> PROVIDER_TO_CUSTOMER)) \<and>
           (\<forall>c. (c, PROVIDER_TO_CUSTOMER) \<in> set (get_neighbors (graph s) A) \<longrightarrow>
                (\<exists>rc. asn_to_rank s' c = Some rc \<and> rc < r)) \<and>
           (\<exists>xs. cp_chain (graph s) xs \<and> last xs = A \<and> length xs = r + 1) \<and>
           (\<forall>xs. cp_chain (graph s) xs \<and> last xs = A \<longrightarrow> length xs \<le> r + 1)"
proof -
  let ?g = "graph s"
  let ?st = "flatten_ranks ?g"
  let ?a2r = "fl_asn_to_rank ?st"
  let ?r2a = "fl_rank_to_asns ?st"
  from flatten_ranks_inv [OF assms(1,2)] obtain r0 where inv: "outer_inv ?g r0 ?st"
    and e: "zero_customer_queue ?st = []" by blast
  note I = inv [unfolded outer_inv_def flat_inv_def]
  from I have ok0: "\<forall>x \<rho>. ?a2r x = Some \<rho> \<longrightarrow> \<rho> \<le> r0 \<and> ranked_ok ?g ?a2r x \<rho>" by simp
  then have ok: "ranked_ok ?g ?a2r x \<rho>" if "?a2r x = Some \<rho>" for x \<rho> using that by blast
  from I have idx: "\<forall>x \<rho>. (?a2r x = Some \<rho>)
      = (\<rho> < length (?r2a @ [[]]) \<and> x \<in> set ((?r2a @ [[]]) ! \<rho>))" by simp
  from all_ranked [OF assms(1,2) inv e assms(3)] obtain r where r: "?a2r A = Some r" by auto
  from idx [rule_format, of A r] r have in_rank: "r < length ?r2a \<and> A \<in> set (?r2a ! r)"
    by (cases "r < length ?r2a") (auto simp: nth_append)
  then have "?r2a \<noteq> []" by auto
  then have fl: "flatten_graph s = Some (s\<lparr>asn_to_rank := ?a2r, rank_to_asns := ?r2a\<rparr>)"
    by (simp add: flatten_graph_def Let_def)
  note okA = ok [OF r, unfolded ranked_ok_def]
  have zero: "r = 0 \<longleftrightarrow> (\<forall>nb \<in> set (get_neighbors ?g A). snd nb \<noteq> PROVIDER_TO_CUSTOMER)"
  proof
    assume "r = 0"
    with okA have "set (custs ?g A) = {}" by auto
    then show "\<forall>nb \<in> set (get_neighbors ?g A). snd nb \<noteq> PROVIDER_TO_CUSTOMER"
      by (auto simp: custs_def filter_empty_conv)
  next
    assume "\<forall>nb \<in> set (get_neighbors ?g A). snd nb \<noteq> PROVIDER_TO_CUSTOMER"
    then have "custs ?g A = []" by (auto simp: custs_def filter_empty_conv)
    with okA show "r = 0" by auto
  qed
  have lower: "\<forall>c. (c, PROVIDER_TO_CUSTOMER) \<in> set (get_neighbors ?g A) \<longrightarrow>
                (\<exists>rc. ?a2r c = Some rc \<and> rc < r)"
    using okA by (simp add: mem_custs [symmetric])
  from chain_exists [OF assms(1) ok r]
  have ex: "\<exists>xs. cp_chain ?g xs \<and> last xs = A \<and> length xs = r + 1" by blast
  have bound: "\<forall>xs. cp_chain ?g xs \<and> last xs = A \<longrightarrow> length xs \<le> r + 1"
  proof (intro allI impI)
    fix xs assume xs: "cp_chain ?g xs \<and> last xs = A"
    with r have "a2r_last": "?a2r (last xs) = Some r" by simp
    from chain_bound [OF assms(1) ok _ this] xs show "length xs \<le> r + 1" by auto
  qed
  from fl r in_rank zero lower ex bound show ?thesis by simp
qed

theorem flatten_rank_correct_witness:
  "wf_graph example_graph \<and> acyclic (cp example_graph) \<and>
   (\<exists>s' r. flatten_graph (new_simulator example_graph) = Some s' \<and> asn_to_rank s' 1 = Some r \<and>
      r < length (rank_to_asns s') \<and> 1 \<in> set (rank_to_asns s' ! r) \<and>
      (\<exists>xs. cp_chain example_graph xs \<and> last xs = 1 \<and> length xs = r + 1))"
proof -
  have w: "wf_graph (graph (new_simulator example_graph))"
    unfolding example_graph_def new_simulator_def using wf_graph_add [OF wf_graph_empty] by simp
  have "acyclic ({} :: (int \<times> int) set)" by (rule wf_acyclic) simp
  then have a: "acyclic (cp (graph (new_simulator example_graph)))"
    by (simp add: new_simulator_def cp_example acyclic_insert)
  have m: "1 \<in> set (all_asns (graph (new_simulator example_graph)))"
    by (simp add: new_simulator_def example_graph_def add_relationship_def insert_asn_def
        empty_graph_def)
  from flatten_rank_correct [OF w a m] w a show ?thesis
    by (simp add: new_simulator_def) blast
qed

section \<open>Properties of runs\<close>

text \<open>
  Claim C3. Let \<open>s\<close> be a state whose routes all have non-empty paths (every reachable
  state is one) on which \<open>flatten_graph\<close> creates at least one rank, and let \<open>s0\<close> be the
  flattened state. Then every round of the propagation loop runs to its end and leaves
  the total number of RIB entries at least as large as it found it; and \<open>propagate\<close>
  returns, with the result true exactly when one of the rounds 1 to 20 ends with the
  total recorded at the end of the round before it (before the first round the recorded
  total is the initial value 0 of \<^verbatim>\<open>prev_total_routes\<close>). So when round 20 ends and
  no round was stable, the result is false.
\<close>

theorem propagate_convergence:
  assumes "paths_nonempty s" and "flatten_graph s = Some s0"
  shows "(\<forall>k. \<exists>t t'. iterate_n k s0 = Some t \<and> propagate_iteration t = Some t' \<and>
               get_rib_count t \<le> get_rib_count t') \<and>
         (\<exists>s'. propagate s = Some ((\<exists>k. 1 \<le> k \<and> k \<le> 20 \<and>
               recorded_total 0 s0 k = recorded_total 0 s0 (k - 1)), s'))"
proof -
  have "run_step [] s s0" using assms(2) by (rule run_step.flatten)
  then have "run_steps [] s s0" by (simp add: run_steps_def)
  from this assms(1) have ne0: "paths_nonempty s0" by (rule paths_nonempty_steps)
  have mono: "\<exists>t t'. iterate_n k s0 = Some t \<and> propagate_iteration t = Some t' \<and>
               get_rib_count t \<le> get_rib_count t'" for k
  proof -
    from iterate_n_steps [OF ne0, of k "[]"]
    obtain t where t: "iterate_n k s0 = Some t" "advance [] s0 t" by blast
    from t(2) ne0 have "paths_nonempty t" by (rule advance_nonempty)
    from propagate_iteration_steps [OF this, of "[]"]
    obtain t' where t': "propagate_iteration t = Some t'" "advance [] t t'" by blast
    from t'(2) have "get_rib_count t \<le> get_rib_count t'"
      by (auto simp: advance_def dest: run_steps_count)
    with t t' show ?thesis by blast
  qed
  from propagate_loop_char [OF ne0, of 0 0]
  obtain s' where "propagate_loop 0 0 s0 = Some (stable_within 20 0 s0, s')" by auto
  with assms(2) have "propagate s = Some ((\<exists>k. 1 \<le> k \<and> k \<le> 20 \<and>
               recorded_total 0 s0 k = recorded_total 0 s0 (k - 1)), s')"
    by (simp add: propagate_def stable_within_def)
  with mono show ?thesis by blast
qed

theorem propagate_convergence_witness:
  "propagate_result example_seeded = Some True \<and>
   (\<exists>k. 1 \<le> k \<and> k \<le> 20 \<and>
      recorded_total 0 (the (flatten_graph example_seeded)) k
        = recorded_total 0 (the (flatten_graph example_seeded)) (k - 1))"
proof -
  have ne: "paths_nonempty example_seeded"
    by (simp add: paths_nonempty_def rib_all_def queue_all_def example_seeded_def seed_rows_def
        seed_announcement_def start_state_def set_rov_asns_def new_simulator_def rib_store_def
        entry_of_def)
  have "flatten_graph example_seeded \<noteq> None" by code_simp
  then have fl: "flatten_graph example_seeded = Some (the (flatten_graph example_seeded))" by simp
  have res: "propagate_result example_seeded = Some True" by code_simp
  from propagate_convergence [OF ne fl] res show ?thesis
    by (auto simp: propagate_result_def)
qed

text \<open>
  Claim C4. Loop-freedom: in every state of a run, the path of every RIB entry contains no
  ASN twice; and \<open>send_route_to_neighbor\<close> leaves the state unchanged when the receiver
  already occurs in the path of the route, whatever the export policy says of the route.
\<close>

theorem loop_freedom:
  "(reachable anns g rov s \<longrightarrow> rib_lookup s asn pfx = Some r \<longrightarrow> distinct (as_path r)) \<and>
   (receiver \<in> set (as_path route) \<longrightarrow>
      send_route_to_neighbor sender receiver route rel s' = s')"
proof -
  have "distinct (as_path r)" if re: "reachable anns g rov s" and l: "rib_lookup s asn pfx = Some r"
  proof -
    from re have "routes_inv (\<lambda>a p r. distinct (as_path r)) (\<lambda>a p r. distinct (as_path r)) rov s"
      by (rule reachable_invariant) (simp_all add: sent_route_def prepend_def)
    with rib_lookup_mem [OF l] show ?thesis by (auto simp: routes_inv_def rib_all_def)
  qed
  then show ?thesis by (simp add: send_route_to_neighbor_def)
qed

theorem loop_freedom_witness:
  "rib_lookup example_final 1 ''p'' =
     Some \<lparr>prefix = ''p'', as_path = [1, 2], announcement_type = LEARNED_FROM_CUSTOMER,
           rov_invalid = False\<rparr> \<and>
   distinct [1, 2 :: int] \<and>
   send_route_to_neighbor 1 2
     \<lparr>prefix = ''p'', as_path = [1, 2], announcement_type = LEARNED_FROM_CUSTOMER,
      rov_invalid = False\<rparr> PROVIDER_TO_CUSTOMER example_final = example_final"
proof -
  let ?r = "\<lparr>prefix = ''p'', as_path = [1, 2], announcement_type = LEARNED_FROM_CUSTOMER,
           rov_invalid = False\<rparr>"
  have "propagate example_seeded \<noteq> None" by code_simp
  then have p: "propagate example_seeded = Some (fst (the (propagate example_seeded)), example_final)"
    by (simp add: example_final_def)
  have "reachable [(2, ''p'', False)] example_graph {} example_seeded"
    unfolding example_seeded_def by (rule seed_rows_reachable)
  from propagate_reachable [OF this p]
  have re: "reachable [(2, ''p'', False)] example_graph {} example_final" .
  have l: "rib_lookup example_final 1 ''p'' = Some ?r"
    unfolding example_final_def by code_simp
  have m: "2 \<in> set (as_path ?r)" by simp
  from loop_freedom [of "[(2, ''p'', False)]" example_graph "{}" example_final 1 "''p''" ?r
      2 ?r 1 PROVIDER_TO_CUSTOMER example_final] re l m
  show ?thesis by simp
qed

text \<open>
  Claim C6. Origin preservation: when every announcement of the input for prefix \<open>P\<close> has
  origin \<open>origin\<close> and flag \<open>flag\<close>, then in every state of a run every RIB entry for
  \<open>P\<close> has a non-empty path that ends in \<open>origin\<close>, and has \<open>rov_invalid = flag\<close>. The
  route that is sent is the old route with the receiver put in front of its path and with
  the same \<open>rov_invalid\<close>.
\<close>

theorem origin_preservation:
  "(reachable anns g rov s \<longrightarrow>
      (\<forall>row \<in> set anns. fst (snd row) = P \<longrightarrow> fst row = origin \<and> snd (snd row) = flag) \<longrightarrow>
      rib_lookup s asn P = Some r \<longrightarrow>
      as_path r \<noteq> [] \<and> last (as_path r) = origin \<and> rov_invalid r = flag) \<and>
   as_path (sent_route receiver route rel) = receiver # as_path route \<and>
   rov_invalid (sent_route receiver route rel) = rov_invalid route"
proof -
  let ?I = "\<lambda>(a::int) p r. prefix r = p \<and> as_path r \<noteq> [] \<and>
      (last (as_path r), p, rov_invalid r) \<in> set anns"
  have "as_path r \<noteq> [] \<and> last (as_path r) = origin \<and> rov_invalid r = flag"
    if re: "reachable anns g rov s"
      and u: "\<forall>row \<in> set anns. fst (snd row) = P \<longrightarrow> fst row = origin \<and> snd (snd row) = flag"
      and l: "rib_lookup s asn P = Some r"
  proof -
    from re have "routes_inv ?I ?I rov s"
      by (rule reachable_invariant) (simp_all add: sent_route_def prepend_def)
    with rib_lookup_mem [OF l]
    have "as_path r \<noteq> []" and "(last (as_path r), P, rov_invalid r) \<in> set anns"
      by (auto simp: routes_inv_def rib_all_def)
    with u show ?thesis by fastforce
  qed
  then show ?thesis by (simp add: sent_route_def prepend_def)
qed

theorem origin_preservation_witness:
  "rib_lookup example_final 1 ''p'' =
     Some \<lparr>prefix = ''p'', as_path = [1, 2], announcement_type = LEARNED_FROM_CUSTOMER,
           rov_invalid = False\<rparr> \<and>
   last [1, 2 :: int] = 2"
proof -
  let ?r = "\<lparr>prefix = ''p'', as_path = [1, 2], announcement_type = LEARNED_FROM_CUSTOMER,
           rov_invalid = False\<rparr>"
  have "propagate example_seeded \<noteq> None" by code_simp
  then have p: "propagate example_seeded = Some (fst (the (propagate example_seeded)), example_final)"
    by (simp add: example_final_def)
  have "reachable [(2, ''p'', False)] example_graph {} example_seeded"
    unfolding example_seeded_def by (rule seed_rows_reachable)
  from propagate_reachable [OF this p]
  have re: "reachable [(2, ''p'', False)] example_graph {} example_final" .
  have l: "rib_lookup example_final 1 ''p'' = Some ?r"
    unfolding example_final_def by code_simp
  have u: "\<forall>row \<in> set [(2 :: int, ''p'', False)].
      fst (snd row) = ''p'' \<longrightarrow> fst row = 2 \<and> snd (snd row) = False"
    by simp
  from origin_preservation [of "[(2, ''p'', False)]" example_graph "{}" example_final "''p''" 2
      False 1 ?r] re l u
  show ?thesis by simp
qed

text \<open>
  Claim C7, as amended. Let \<open>D\<close> be ROV-enabled and \<open>E\<close> the RIB entry of \<open>D\<close> for a
  prefix, in any state of a run. If \<open>E\<close> is \<open>rov_invalid\<close>, then \<open>E\<close> is the single-hop
  route that \<open>D\<close> seeded itself from an \<open>rov_invalid\<close> announcement. A candidate \<open>C\<close> that
  is not dropped on ingress at \<open>D\<close> is not \<open>rov_invalid\<close>; so when no ROV-enabled AS seeds
  an \<open>rov_invalid\<close> announcement, \<open>C\<close> and \<open>E\<close> agree on \<open>rov_invalid\<close>, and
  \<open>better_route\<close> returns what it returns with an empty ROV set, where its first test
  never holds.
\<close>

theorem rov_clause_amended:
  assumes "reachable anns g rov s" and "D \<in> rov" and "rib_lookup s D pfx = Some E"
  shows "(rov_invalid E \<longrightarrow> as_path E = [D] \<and> (D, pfx, True) \<in> set anns) \<and>
         (\<not> rov_invalid C \<longrightarrow> (\<forall>row \<in> set anns. fst row \<in> rov \<longrightarrow> \<not> snd (snd row)) \<longrightarrow>
            rov_invalid C = rov_invalid E \<and> better_route rov C E D = better_route {} C E D)"
proof -
  let ?P = "\<lambda>a p r. a \<in> rov \<longrightarrow> rov_invalid r \<longrightarrow> as_path r = [a] \<and> (a, p, True) \<in> set anns"
  from assms(1) have "routes_inv ?P (\<lambda>a p r. True) rov s"
    by (rule reachable_invariant) auto
  with rib_lookup_mem [OF assms(3)] assms(2)
  have 1: "rov_invalid E \<longrightarrow> as_path E = [D] \<and> (D, pfx, True) \<in> set anns"
    by (auto simp: routes_inv_def rib_all_def)
  have 2: "rov_invalid C = rov_invalid E \<and> better_route rov C E D = better_route {} C E D"
    if c: "\<not> rov_invalid C" and n: "\<forall>row \<in> set anns. fst row \<in> rov \<longrightarrow> \<not> snd (snd row)"
  proof -
    from 1 n assms(2) have "\<not> rov_invalid E" by fastforce
    with c show ?thesis by (simp add: better_route_def)
  qed
  from 1 2 show ?thesis by blast
qed

theorem rov_clause_amended_witness:
  "rib_lookup example_rov_final 1 ''p'' =
     Some \<lparr>prefix = ''p'', as_path = [1, 2], announcement_type = LEARNED_FROM_CUSTOMER,
           rov_invalid = False\<rparr> \<and>
   better_route {1}
     \<lparr>prefix = ''p'', as_path = [1, 3, 2], announcement_type = LEARNED_FROM_PEER,
      rov_invalid = False\<rparr>
     \<lparr>prefix = ''p'', as_path = [1, 2], announcement_type = LEARNED_FROM_CUSTOMER,
      rov_invalid = False\<rparr> 1 =
   better_route {}
     \<lparr>prefix = ''p'', as_path = [1, 3, 2], announcement_type = LEARNED_FROM_PEER,
      rov_invalid = False\<rparr>
     \<lparr>prefix = ''p'', as_path = [1, 2], announcement_type = LEARNED_FROM_CUSTOMER,
      rov_invalid = False\<rparr> 1"
proof -
  let ?E = "\<lparr>prefix = ''p'', as_path = [1, 2], announcement_type = LEARNED_FROM_CUSTOMER,
           rov_invalid = False\<rparr>"
  let ?C = "\<lparr>prefix = ''p'', as_path = [1, 3, 2], announcement_type = LEARNED_FROM_PEER,
           rov_invalid = False\<rparr>"
  have "propagate example_rov_seeded \<noteq> None" by code_simp
  then have p: "propagate example_rov_seeded
      = Some (fst (the (propagate example_rov_seeded)), example_rov_final)"
    by (simp add: example_rov_final_def)
  have "reachable [(2, ''p'', False)] example_graph {1} example_rov_seeded"
    unfolding example_rov_seeded_def by (rule seed_rows_reachable)
  from propagate_reachable [OF this p]
  have re: "reachable [(2, ''p'', False)] example_graph {1} example_rov_final" .
  have l: "rib_lookup example_rov_final 1 ''p'' = Some ?E"
    unfolding example_rov_final_def by code_simp
  have d: "(1::int) \<in> {1}" by simp
  have n: "\<forall>row \<in> set [(2 :: int, ''p'', False)]. fst row \<in> {1} \<longrightarrow> \<not> snd (snd row)" by simp
  have c: "\<not> rov_invalid ?C" by simp
  from rov_clause_amended [OF re d l, of ?C] n c l show ?thesis by blast
qed

text \<open>
  The claim as stated fails: seeding does not drop. In the example run the ROV-enabled AS 1
  holds its own seeded invalid route, the valid route of its customer AS 2 arrives, the two
  disagree on \<open>rov_invalid\<close>, the ROV branch decides for the candidate, which ends up in
  the final RIB; without the ROV branch the shorter incumbent would have stayed.
\<close>

theorem rov_clause_counterexample:
  "1 \<in> rov_enabled_asns example_invalid_seed \<and>
   rib_lookup example_invalid_seed 1 ''p'' =
     Some \<lparr>prefix = ''p'', as_path = [1], announcement_type = LEARNED_FROM_CUSTOMER,
           rov_invalid = True\<rparr> \<and>
   final_rib example_invalid_seed 1 ''p'' =
     Some \<lparr>prefix = ''p'', as_path = [1, 2], announcement_type = LEARNED_FROM_CUSTOMER,
           rov_invalid = False\<rparr> \<and>
   better_route {1}
     \<lparr>prefix = ''p'', as_path = [1, 2], announcement_type = LEARNED_FROM_CUSTOMER,
      rov_invalid = False\<rparr>
     \<lparr>prefix = ''p'', as_path = [1], announcement_type = LEARNED_FROM_CUSTOMER,
      rov_invalid = True\<rparr> 1 = Some True \<and>
   better_route {}
     \<lparr>prefix = ''p'', as_path = [1, 2], announcement_type = LEARNED_FROM_CUSTOMER,
      rov_invalid = False\<rparr>
     \<lparr>prefix = ''p'', as_path = [1], announcement_type = LEARNED_FROM_CUSTOMER,
      rov_invalid = True\<rparr> 1 = Some False"
  by code_simp

text \<open>
  Claim C10. Seeding installs the single-hop route \<open>[origin]\<close>, learned from a customer,
  in the RIB of the origin, whatever the state: also when the origin is ROV-enabled and the
  announcement is \<open>rov_invalid\<close>, although the same route arriving through the queue of
  that AS is discarded by \<open>process_route\<close>.
\<close>

theorem seeding_bypasses_rov_drop:
  "rib_lookup (seed_announcement origin_asn pfx flag s) origin_asn pfx =
     Some \<lparr>prefix = pfx, as_path = [origin_asn], announcement_type = LEARNED_FROM_CUSTOMER,
           rov_invalid = flag\<rparr> \<and>
   rib_lookup (seed_announcement origin_asn pfx True (set_rov_asns {origin_asn} s)) origin_asn pfx =
     Some \<lparr>prefix = pfx, as_path = [origin_asn], announcement_type = LEARNED_FROM_CUSTOMER,
           rov_invalid = True\<rparr> \<and>
   process_route origin_asn pfx
     \<lparr>prefix = pfx, as_path = [origin_asn], announcement_type = LEARNED_FROM_CUSTOMER,
      rov_invalid = True\<rparr> (set_rov_asns {origin_asn} s) = Some (set_rov_asns {origin_asn} s)"
  by (simp add: seed_announcement_def Let_def rib_lookup_def rib_store_def update_conv'
      process_route_def set_rov_asns_def)

section \<open>Properties of the command-line run\<close>

lemma set_rov_empty: "set_rov_asns {} (new_simulator g) = new_simulator g"
  by (simp add: set_rov_asns_def new_simulator_def)

text \<open>
  Claim C8, as amended. When the command line names a relationships file and an
  announcements file: if the relationships file cannot be opened, or the announcements
  file cannot be opened, the run ends with exit code 1 and writes no \<^verbatim>\<open>ribs.csv\<close>. If the
  file named for the ROV ASNs cannot be opened, the run goes on exactly as if no ROV file
  had been named.
\<close>

theorem missing_input_file:
  assumes "parse_options args
             \<lparr>relationships_file = [], announcements_file = [], rov_asns_file = []\<rparr> = Inr opts"
    and "relationships_file opts \<noteq> []" and "announcements_file opts \<noteq> []"
  shows "(files (relationships_file opts) = None \<longrightarrow> main args files can_create = Some failure) \<and>
         (files (announcements_file opts) = None \<longrightarrow> main args files can_create = Some failure) \<and>
         (files (rov_asns_file opts) = None \<longrightarrow>
            run_simulation opts files can_create
              = run_simulation (opts\<lparr>rov_asns_file := []\<rparr>) files can_create)"
proof -
  have m: "main args files can_create =
      (case run_simulation opts files can_create of
         None \<Rightarrow> None | Some (Inl e) \<Rightarrow> Some failure | Some (Inr result) \<Rightarrow> Some result)"
    using assms by (simp add: main_def)
  have a: "main args files can_create = Some failure" if "files (relationships_file opts) = None"
    using that by (simp add: m run_simulation_def load_from_file_def)
  have b: "main args files can_create = Some failure" if ann: "files (announcements_file opts) = None"
  proof (cases "load_from_file (files (relationships_file opts)) empty_graph")
    case (Inl e)
    then show ?thesis by (simp add: m run_simulation_def)
  next
    case (Inr g)
    from has_customer_provider_cycle_total [of g] obtain c
      where c: "has_customer_provider_cycle g = Some c" ..
    show ?thesis
    proof (cases c)
      case True
      with Inr c show ?thesis by (simp add: m run_simulation_def)
    next
      case False
      with Inr c ann show ?thesis
        by (simp add: m run_simulation_def load_announcements_def Let_def)
    qed
  qed
  have c: "run_simulation opts files can_create
      = run_simulation (opts\<lparr>rov_asns_file := []\<rparr>) files can_create"
    if rov: "files (rov_asns_file opts) = None"
  proof (cases "load_from_file (files (relationships_file opts)) empty_graph")
    case (Inl e)
    then show ?thesis by (simp add: run_simulation_def)
  next
    case (Inr g)
    show ?thesis
    proof (cases "has_customer_provider_cycle g")
      case None
      with Inr show ?thesis by (simp add: run_simulation_def)
    next
      case (Some c)
      with Inr rov show ?thesis
        by (cases c) (simp_all add: run_simulation_def load_rov_asns_def set_rov_empty Let_def)
    qed
  qed
  from a b c show ?thesis by blast
qed

theorem missing_input_file_witness:
  "main [OPT_r ''rel'', OPT_a ''nowhere'', OPT_v ''rov''] example_files True = Some failure"
proof -
  let ?opts = "\<lparr>relationships_file = ''rel'', announcements_file = ''nowhere'',
                 rov_asns_file = ''rov''\<rparr>"
  have p: "parse_options [OPT_r ''rel'', OPT_a ''nowhere'', OPT_v ''rov'']
      \<lparr>relationships_file = [], announcements_file = [], rov_asns_file = []\<rparr> = Inr ?opts"
    by simp
  have r: "relationships_file ?opts \<noteq> []" and a: "announcements_file ?opts \<noteq> []" by simp_all
  have "example_files (announcements_file ?opts) = None" by (simp add: example_files_def)
  with missing_input_file [OF p r a, of example_files True] show ?thesis by blast
qed

text \<open>
  The claim as stated fails for the ROV file: with a relationships and an announcements
  file that open and a ROV file that does not, the run ends with exit code 0 and writes
  its rows.
\<close>

theorem missing_rov_file_counterexample:
  "example_files ''rov'' = None \<and>
   main [OPT_r ''rel'', OPT_a ''ann'', OPT_v ''rov''] example_files True =
     Some \<lparr>exit_code = 0,
           ribs_csv = Some [(1, ''10.0.0.0/24'', [1]), (2, ''10.0.0.0/24'', [2, 1]),
                            (3, ''10.0.0.0/24'', [3, 1])]\<rparr>"
  by code_simp

text \<open>
  Claim C9 fails on the code for a row whose origin-ASN field is not a number: the row
  has its three fields, \<^verbatim>\<open>std::stoi\<close> throws, nothing in \<^verbatim>\<open>load_announcements\<close>
  catches it, and \<open>main\<close> ends the run with exit code 1 and no \<^verbatim>\<open>ribs.csv\<close>. The same
  row without its third field is skipped, and the run goes on to propagation and export.
\<close>

theorem non_numeric_asn_row_aborts:
  "main [OPT_r ''rel'', OPT_a ''ann''] bad_row_files True = Some failure \<and>
   parse_announcement_line ''abc,10.0.0.0/24,False'' = Some (Inl invalid_argument) \<and>
   main [OPT_r ''rel'', OPT_a ''ann''] short_row_files True
     = Some \<lparr>exit_code = 0, ribs_csv = Some []\<rparr> \<and>
   parse_announcement_line ''abc,10.0.0.0/24'' = None"
  by code_simp

end
